theory Spec2Isabelle
  imports Main "HOL-Library.Multiset"
begin

section \<open>The instruction loader of rvref, embedded in HOL\<close>

text \<open>
  The development follows the loader \<^verbatim>\<open>loadInstructions.js\<close> in the version that
  parses multi-segment locations, supports 16-bit and 32-bit match strings and fills gaps
  (the first file of \<^verbatim>\<open>src/unnamed/part_000\<close>). Where the older copy
  \<^verbatim>\<open>src/src/lib/loadInstructions.js\<close> defines a function of the same name with a
  different body, that body is embedded as well under the suffix \<open>_lib\<close>.

  Conventions of the embedding:
  \<^item> a JavaScript string is a \<open>string\<close>; one \<open>char\<close> stands for one code unit
    (code units below 256);
  \<^item> a JavaScript number that holds an integer is an \<open>int\<close>; the results of
    \<^verbatim>\<open>parseInt\<close> are exact (digit strings below \<open>2^53\<close>), and \<^verbatim>\<open>NaN\<close> is
    \<open>None\<close>;
  \<^item> \<^verbatim>\<open>undefined\<close> and \<^verbatim>\<open>null\<close> are constructors of their own or \<open>None\<close>;
  \<^item> \<^verbatim>\<open>push\<close> onto an array is \<open>xs @ [x]\<close> on a list passed along as state (\<open>flds\<close> for \<^verbatim>\<open>fields\<close>, \<open>bitn\<close> for \<^verbatim>\<open>bit\<close>: HOL has constants of these names).
\<close>

subsection \<open>Library functions of JavaScript\<close>

text \<open>\<^verbatim>\<open>s.split("")\<close>: one single-character string per code unit.\<close>

definition split_chars :: "string \<Rightarrow> string list" where
  "split_chars s = map (\<lambda>c. [c]) s"

text \<open>\<^verbatim>\<open>s.split(sep)\<close> for a separator of one character: never the empty list.\<close>

fun js_split :: "char \<Rightarrow> string \<Rightarrow> string list" where
  "js_split sep [] = [[]]"
| "js_split sep (c # cs) =
     (if c = sep then [] # js_split sep cs
      else (case js_split sep cs of [] \<Rightarrow> [[c]] | p # ps \<Rightarrow> (c # p) # ps))"

text \<open>White space as \<^verbatim>\<open>trim\<close> and \<^verbatim>\<open>parseInt\<close> read it: TAB, LF, VT, FF, CR, SP, NBSP.\<close>

definition is_ws :: "char \<Rightarrow> bool" where
  "is_ws c = (of_char c \<in> {9, 10, 11, 12, 13, 32, 160 :: nat})"

definition js_trim :: "string \<Rightarrow> string" where
  "js_trim s = rev (dropWhile is_ws (rev (dropWhile is_ws s)))"

definition is_digit :: "char \<Rightarrow> bool" where
  "is_digit c = (48 \<le> (of_char c :: nat) \<and> (of_char c :: nat) \<le> 57)"

definition digit_val :: "char \<Rightarrow> int" where
  "digit_val c = int (of_char c) - 48"

text \<open>
  \<^verbatim>\<open>parseInt(s, 10)\<close>: leading white space is skipped, one sign is read, then the longest
  prefix of decimal digits; no digit gives \<^verbatim>\<open>NaN\<close>.
\<close>

definition parseInt :: "string \<Rightarrow> int option" where
  "parseInt s =
     (let s1 = dropWhile is_ws s;
          sign = (case s1 of c # _ \<Rightarrow> (if c = CHR ''-'' then - 1 else 1) | [] \<Rightarrow> (1 :: int));
          s2 = (case s1 of c # r \<Rightarrow> (if c = CHR ''-'' \<or> c = CHR ''+'' then r else s1) | [] \<Rightarrow> s1);
          ds = takeWhile is_digit s2
      in if ds = [] then None else Some (sign * foldl (\<lambda>a c. 10 * a + digit_val c) 0 ds))"

text \<open>
  \<^verbatim>\<open>xs.slice(start, end)\<close>: a negative index counts from the end, both indices are
  clamped to the array.
\<close>

definition js_slice :: "'a list \<Rightarrow> int \<Rightarrow> int \<Rightarrow> 'a list" where
  "js_slice xs start end' =
     (let n = int (length xs);
          k = (if start < 0 then max (n + start) 0 else min start n);
          e = (if end' < 0 then max (n + end') 0 else min end' n)
      in take (nat (e - k)) (drop (nat k) xs))"

text \<open>
  \<^verbatim>\<open>xs.sort(cmp)\<close>: the sort is stable, and \<open>x\<close> comes before \<open>y\<close> when
  \<open>cmp x y\<close> is negative. Insertion from the right keeps equal elements in their order.
\<close>

fun js_insort :: "('a \<Rightarrow> 'a \<Rightarrow> int) \<Rightarrow> 'a \<Rightarrow> 'a list \<Rightarrow> 'a list" where
  "js_insort cmp x [] = [x]"
| "js_insort cmp x (y # ys) =
     (if cmp x y \<le> 0 then x # y # ys else y # js_insort cmp x ys)"

definition js_sort :: "('a \<Rightarrow> 'a \<Rightarrow> int) \<Rightarrow> 'a list \<Rightarrow> 'a list" where
  "js_sort cmp xs = foldr (js_insort cmp) xs []"

text \<open>\<^verbatim>\<open>/^[01]{n}$/.test(s)\<close>.\<close>

definition all01 :: "nat \<Rightarrow> string \<Rightarrow> bool" where
  "all01 n s = (length s = n \<and> list_all (\<lambda>c. c = CHR ''0'' \<or> c = CHR ''1'') s)"

subsection \<open>MatchPatternParser: \<^verbatim>\<open>parseMatchBits\<close>\<close>

text \<open>
  \<^verbatim>\<open>
  function parseMatchBits(matchStr) {
    if (!matchStr) return null;
    if (matchStr.length !== 32 && matchStr.length !== 16) return null;
    return matchStr.split("");
  }
  \<close>
  The empty string is falsy; \<open>None\<close> is \<^verbatim>\<open>null\<close>.
\<close>

definition parseMatchBits :: "string \<Rightarrow> string list option" where
  "parseMatchBits matchStr =
     (if matchStr = [] then None
      else if length matchStr \<noteq> 32 \<and> length matchStr \<noteq> 16 then None
      else Some (split_chars matchStr))"

text \<open>
  The copy in \<^verbatim>\<open>src/src/lib/loadInstructions.js\<close>:
  \<^verbatim>\<open>
  function parseMatchBits(matchStr) {
    if (!matchStr || matchStr.length !== 32) return null;
    return matchStr.split("");
  }
  \<close>
\<close>

definition parseMatchBits_lib :: "string \<Rightarrow> string list option" where
  "parseMatchBits_lib matchStr =
     (if matchStr = [] \<or> length matchStr \<noteq> 32 then None
      else Some (split_chars matchStr))"

subsection \<open>BitLocationParser: \<^verbatim>\<open>parseLocationSegments\<close>\<close>

text \<open>
  A location as the YAML loader delivers it: absent, \<^verbatim>\<open>null\<close>, or text. \<open>String_js\<close> is
  JavaScript's \<^verbatim>\<open>String(loc)\<close>; a numeric location is its decimal text.
\<close>

datatype jsval = Undefined | Null | Str string

definition String_js :: "jsval \<Rightarrow> string" where
  "String_js v = (case v of Undefined \<Rightarrow> ''undefined'' | Null \<Rightarrow> ''null'' | Str s \<Rightarrow> s)"

text \<open>The objects \<^verbatim>\<open>{ from, to }\<close>.\<close>

record segment =
  seg_from :: int
  seg_to :: int

text \<open>
  The body of the arrow function mapped over the parts, up to the \<^verbatim>\<open>NaN\<close> test:
  \<^verbatim>\<open>
  const [hiStr, loStr] = part.split("-").map(n => n.trim());
  const hi = parseInt(hiStr, 10);
  const lo = loStr !== undefined && loStr !== "" ? parseInt(loStr, 10) : hi;
  if (Number.isNaN(hi) || Number.isNaN(lo)) return null;
  \<close>
  The result is the pair of endpoints \<open>(hi, lo)\<close>, or \<open>None\<close> for \<^verbatim>\<open>null\<close>.
\<close>

definition endpoints :: "string \<Rightarrow> (int \<times> int) option" where
  "endpoints part =
     (let strs = map js_trim (js_split CHR ''-'' part);
          hi = (case strs of [] \<Rightarrow> None | hiStr # _ \<Rightarrow> parseInt hiStr);
          lo = (case strs of _ # loStr # _ \<Rightarrow> (if loStr \<noteq> [] then parseInt loStr else hi)
                | _ \<Rightarrow> hi)
      in case (hi, lo) of (Some h, Some l) \<Rightarrow> Some (h, l) | _ \<Rightarrow> None)"

text \<open>\<^verbatim>\<open>return { from: Math.max(hi, lo), to: Math.min(hi, lo) };\<close>\<close>

definition parsePart :: "string \<Rightarrow> segment option" where
  "parsePart part =
     (case endpoints part of None \<Rightarrow> None
      | Some (hi, lo) \<Rightarrow> Some \<lparr>seg_from = max hi lo, seg_to = min hi lo\<rparr>)"

text \<open>\<^verbatim>\<open>(a, b) => (b.from - a.from) || (b.to - a.to)\<close>\<close>

definition cmpSegments :: "segment \<Rightarrow> segment \<Rightarrow> int" where
  "cmpSegments a b =
     (if seg_from b - seg_from a \<noteq> 0 then seg_from b - seg_from a else seg_to b - seg_to a)"

text \<open>\<^verbatim>\<open>String(loc).split("|").map(part => part.trim()).filter(Boolean)\<close>\<close>

definition locationParts :: "string \<Rightarrow> string list" where
  "locationParts s = filter (\<lambda>p. p \<noteq> []) (map js_trim (js_split CHR ''|'' s))"

definition parseLocationSegments :: "jsval \<Rightarrow> segment list" where
  "parseLocationSegments loc =
     (case loc of Undefined \<Rightarrow> [] | Null \<Rightarrow> []
      | Str s \<Rightarrow> js_sort cmpSegments (List.map_filter parsePart (locationParts s)))"

subsection \<open>FieldResolver: \<^verbatim>\<open>computeFields\<close>\<close>

text \<open>
  A variable of the encoding, \<^verbatim>\<open>{ name, location }\<close>, and a field descriptor (\<open>bitfield\<close>)
  \<^verbatim>\<open>{ label, from, to, width, kind, segments }\<close>; \<open>f_segments\<close> is \<open>None\<close> where the
  object has no array \<^verbatim>\<open>segments\<close>. The kinds are the strings of the source.
\<close>

record variable =
  v_name :: string
  v_location :: jsval

record bitfield =
  f_label :: string
  f_from :: int
  f_to :: int
  f_width :: int
  f_kind :: string
  f_segments :: "segment list option"

text \<open>
  The loop over the variables:
  \<^verbatim>\<open>
  for (const v of vars) {
    const segments = parseLocationSegments(v.location);
    if (segments.length === 0) continue;
    const from = Math.max(...segments.map(s => s.from));
    const to = Math.min(...segments.map(s => s.to));
    const width = segments.reduce((sum, s) => sum + (s.from - s.to + 1), 0);
    fields.push({ label: v.name, from, to, width, kind: "var", segments });
  }
  \<close>
\<close>

fun varLoop :: "variable list \<Rightarrow> bitfield list \<Rightarrow> bitfield list" where
  "varLoop [] flds = flds"
| "varLoop (v # vs) flds =
     (let segments = parseLocationSegments (v_location v) in
      case segments of
        [] \<Rightarrow> varLoop vs flds
      | s # ss \<Rightarrow>
          varLoop vs (flds @
            [\<lparr>f_label = v_name v,
              f_from = foldl max (seg_from s) (map seg_from ss),
              f_to = foldl min (seg_to s) (map seg_to ss),
              f_width = foldl (\<lambda>sum s. sum + (seg_from s - seg_to s + 1)) 0 segments,
              f_kind = ''var'',
              f_segments = Some segments\<rparr>]))"

text \<open>
  \<^verbatim>\<open>match[match.length - 1 - bit]\<close>: the symbol at bit position \<open>bitn\<close>, \<open>None\<close>
  (\<^verbatim>\<open>undefined\<close>) outside the array.
\<close>

definition symbolAt :: "string list \<Rightarrow> int \<Rightarrow> string option" where
  "symbolAt match bitn =
     (let i = int (length match) - 1 - bitn
      in if 0 \<le> i \<and> i < int (length match) then Some (match ! nat i) else None)"

text \<open>\<^verbatim>\<open>while (bit >= 0 && match[match.length - 1 - bit] !== "-") bit--;\<close>\<close>

function scanRun :: "string list \<Rightarrow> int \<Rightarrow> int" where
  "scanRun match bitn =
     (if bitn \<ge> 0 \<and> symbolAt match bitn \<noteq> Some ''-'' then scanRun match (bitn - 1) else bitn)"
  by pat_completeness auto
termination
  by (relation "measure (\<lambda>(match, bitn). nat (bitn + 1))") auto

declare scanRun.simps [simp del]

definition constLabel :: "int \<Rightarrow> int \<Rightarrow> string \<Rightarrow> string" where
  "constLabel hi lo bits =
     (if hi = 31 \<and> lo = 25 then ''funct7='' @ bits
      else if hi = 14 \<and> lo = 12 then ''funct3='' @ bits
      else if hi = 6 \<and> lo = 0 then ''opcode='' @ bits
      else ''const='' @ bits)"

text \<open>
  The constant field pushed for the run \<open>[hi, lo]\<close>:
  \<^verbatim>\<open>
  const bits = match.slice(match.length - 1 - hi, match.length - lo).join("");
  ...
  fields.push({ label, from: hi, to: lo, width, kind: "const" });
  \<close>
\<close>

definition constField :: "string list \<Rightarrow> int \<Rightarrow> int \<Rightarrow> bitfield" where
  "constField match hi lo =
     (let bits = concat (js_slice match (int (length match) - 1 - hi) (int (length match) - lo))
      in \<lparr>f_label = constLabel hi lo bits, f_from = hi, f_to = lo, f_width = hi - lo + 1,
          f_kind = ''const'', f_segments = None\<rparr>)"

text \<open>
  The loop over the match pattern, from \<^verbatim>\<open>bit = match.length - 1\<close> down:
  \<^verbatim>\<open>
  while (bit >= 0) {
    const hi = bit;
    while (bit >= 0 && match[match.length - 1 - bit] !== "-") bit--;
    const lo = bit + 1;
    const width = hi - lo + 1;
    if (width <= 0) { bit--; continue; }
    ...
    fields.push({ label, from: hi, to: lo, width, kind: "const" });
  }
  \<close>
\<close>

function constLoop :: "string list \<Rightarrow> int \<Rightarrow> bitfield list \<Rightarrow> bitfield list" where
  "constLoop match bitn flds =
     (if bitn \<ge> 0 then
        (if bitn - (scanRun match bitn + 1) + 1 \<le> 0
         then constLoop match (scanRun match bitn - 1) flds
         else constLoop match (scanRun match bitn)
                (flds @ [constField match bitn (scanRun match bitn + 1)]))
      else flds)"
  by pat_completeness auto
termination
proof (relation "measure (\<lambda>(match, bitn, flds). nat (bitn + 1))")
  have le: "scanRun match bitn \<le> bitn" for match bitn
  proof (induction match bitn rule: scanRun.induct)
    case (1 match bitn)
    show ?case
    proof (cases "bitn \<ge> 0 \<and> symbolAt match bitn \<noteq> Some ''-''")
      case True
      then have "scanRun match bitn = scanRun match (bitn - 1)"
        by (subst scanRun.simps) simp
      with 1 True show ?thesis by simp
    next
      case False
      then have "scanRun match bitn = bitn"
        by (subst scanRun.simps) auto
      then show ?thesis by simp
    qed
  qed
  show "wf (measure (\<lambda>(match :: string list, bitn :: int, flds :: bitfield list). nat (bitn + 1)))"
    by simp
  show "((match, scanRun match bitn - 1, flds), (match, bitn, flds))
          \<in> measure (\<lambda>(match, bitn, flds). nat (bitn + 1))"
    if "0 \<le> bitn" for match bitn and flds :: "bitfield list"
    using that le [of match bitn] by simp
  show "((match, scanRun match bitn, flds @ [constField match bitn (scanRun match bitn + 1)]),
          (match, bitn, flds)) \<in> measure (\<lambda>(match, bitn, flds). nat (bitn + 1))"
    if "0 \<le> bitn" and "\<not> bitn - (scanRun match bitn + 1) + 1 \<le> 0"
    for match bitn and flds :: "bitfield list"
    using that by simp
qed

declare constLoop.simps [simp del]

text \<open>\<^verbatim>\<open>(a, b) => b.from - a.from\<close>\<close>

definition cmpFrom :: "bitfield \<Rightarrow> bitfield \<Rightarrow> int" where
  "cmpFrom a b = f_from b - f_from a"

text \<open>
  The instruction document. \<open>e_match\<close> and \<open>e_variables\<close> are \<open>None\<close> where the property
  is absent or \<^verbatim>\<open>null\<close>; \<open>e_keys\<close> is \<^verbatim>\<open>Object.keys(enc)\<close>; \<open>e_sub\<close> holds the
  sub-encodings stored under the other keys (\<^verbatim>\<open>RV32\<close>, \<^verbatim>\<open>RV64\<close>).
\<close>

record sub_encoding =
  se_match :: "string option"
  se_variables :: "variable list option"

record encoding =
  e_match :: "string option"
  e_variables :: "variable list option"
  e_keys :: "string list"
  e_sub :: "(string \<times> sub_encoding) list"

record doc =
  d_encoding :: "encoding option"

text \<open>A string property is truthy when it is present and not empty.\<close>

definition truthy :: "string option \<Rightarrow> bool" where
  "truthy v = (case v of None \<Rightarrow> False | Some s \<Rightarrow> s \<noteq> [])"

definition empty_sub :: sub_encoding where
  "empty_sub = \<lparr>se_match = None, se_variables = None\<rparr>"

text \<open>
  The encoding that \<^verbatim>\<open>computeFields\<close> resolves:
  \<^verbatim>\<open>
  let enc = doc.encoding;
  if (!enc.match && !enc.variables) {
    const variants = Object.keys(enc);
    const chosenKey = variants.includes("RV32") ? "RV32" : variants[0];
    enc = enc[chosenKey] || {};
  }
  \<close>
  In that branch the properties \<^verbatim>\<open>match\<close> and \<^verbatim>\<open>variables\<close> are falsy, so choosing one of
  them as the key gives the empty object.
\<close>

definition chooseEncoding :: "encoding \<Rightarrow> sub_encoding" where
  "chooseEncoding enc =
     (if \<not> truthy (e_match enc) \<and> e_variables enc = None then
        (let variants = e_keys enc;
             chosenKey = (if ''RV32'' \<in> set variants then Some ''RV32''
                          else (case variants of [] \<Rightarrow> None | k # _ \<Rightarrow> Some k))
         in case chosenKey of
              None \<Rightarrow> empty_sub
            | Some k \<Rightarrow>
                (if k = ''match'' \<or> k = ''variables'' then empty_sub
                 else (case map_of (e_sub enc) k of None \<Rightarrow> empty_sub | Some se \<Rightarrow> se)))
      else \<lparr>se_match = e_match enc, se_variables = e_variables enc\<rparr>)"

text \<open>
  \<^verbatim>\<open>
  const match = parseMatchBits(enc.match || "");
  const vars = Array.isArray(enc.variables) ? enc.variables : [];
  ... the two loops ...
  fields.sort((a, b) => b.from - a.from);
  return fields;
  \<close>
\<close>

definition computeFields :: "doc \<Rightarrow> bitfield list" where
  "computeFields doc =
     (case d_encoding doc of
        None \<Rightarrow> []
      | Some enc0 \<Rightarrow>
          (let enc = chooseEncoding enc0;
               match = parseMatchBits (case se_match enc of None \<Rightarrow> [] | Some s \<Rightarrow> s);
               vars = (case se_variables enc of None \<Rightarrow> [] | Some vs \<Rightarrow> vs);
               flds = varLoop vars [];
               flds' = (case match of
                            None \<Rightarrow> flds
                          | Some m \<Rightarrow> constLoop m (int (length m) - 1) flds)
           in js_sort cmpFrom flds'))"

text \<open>\<^verbatim>\<open>(hi, lo) => match.slice(31 - hi, 32 - lo).join("")\<close>\<close>

definition sliceBits :: "string list \<Rightarrow> int \<Rightarrow> int \<Rightarrow> string" where
  "sliceBits m hi lo = concat (js_slice m (31 - hi) (32 - lo))"

text \<open>
  The constants of \<^verbatim>\<open>computeFields\<close> in \<^verbatim>\<open>src/src/lib/loadInstructions.js\<close>
  (lines 35 to 49), for a match that parsed:
  \<^verbatim>\<open>
  const opcode = sliceBits(6, 0);
  if (/^[01]{7}$/.test(opcode)) {
    fields.push({ label: "opcode=" + opcode, from: 6, to: 0, width: 7, kind: "const" });
  }
  const funct3 = sliceBits(14, 12);
  if (/^[01]{3}$/.test(funct3)) {
    fields.push({ label: "funct3=" + funct3, from: 14, to: 12, width: 3, kind: "const" });
  }
  const funct7 = sliceBits(31, 25);
  if (/^[01]{7}$/.test(funct7) && !/^[-]{7}$/.test(funct7)) {
    fields.push({ label: "funct7=" + funct7, from: 31, to: 25, width: 7, kind: "const" });
  }
  \<close>
\<close>

definition constFields_lib :: "string list \<Rightarrow> bitfield list \<Rightarrow> bitfield list" where
  "constFields_lib match flds =
     (let opcode = sliceBits match 6 0;
          flds1 = (if all01 7 opcode
                     then flds @ [\<lparr>f_label = ''opcode='' @ opcode, f_from = 6, f_to = 0,
                                     f_width = 7, f_kind = ''const'', f_segments = None\<rparr>]
                     else flds);
          funct3 = sliceBits match 14 12;
          flds2 = (if all01 3 funct3
                     then flds1 @ [\<lparr>f_label = ''funct3='' @ funct3, f_from = 14, f_to = 12,
                                      f_width = 3, f_kind = ''const'', f_segments = None\<rparr>]
                     else flds1);
          funct7 = sliceBits match 31 25
      in if all01 7 funct7 \<and> \<not> (length funct7 = 7 \<and> list_all (\<lambda>c. c = CHR ''-'') funct7)
         then flds2 @ [\<lparr>f_label = ''funct7='' @ funct7, f_from = 31, f_to = 25,
                          f_width = 7, f_kind = ''const'', f_segments = None\<rparr>]
         else flds2)"

subsection \<open>The derived strings of \<^verbatim>\<open>loadInstructions\<close>\<close>

text \<open>
  \<^verbatim>\<open>
  let opcode; let funct3; let funct7;
  if (doc.encoding && doc.encoding.match) {
    const m = parseMatchBits(doc.encoding.match);
    if (m) {
      const sliceBits = (hi, lo) => m.slice(31 - hi, 32 - lo).join("");
      opcode = sliceBits(6, 0);
      funct3 = sliceBits(14, 12);
      const f7 = sliceBits(31, 25);
      funct7 = /^[01]{7}$/.test(f7) ? f7 : undefined;
    }
  }
  \<close>
  \<open>None\<close> is \<^verbatim>\<open>undefined\<close>.
\<close>

record derived =
  opcode :: "string option"
  funct3 :: "string option"
  funct7 :: "string option"

definition derivedStrings :: "doc \<Rightarrow> derived" where
  "derivedStrings doc =
     (case d_encoding doc of
        None \<Rightarrow> \<lparr>opcode = None, funct3 = None, funct7 = None\<rparr>
      | Some enc \<Rightarrow>
          (case e_match enc of
             None \<Rightarrow> \<lparr>opcode = None, funct3 = None, funct7 = None\<rparr>
           | Some s \<Rightarrow>
               (case parseMatchBits s of
                  None \<Rightarrow> \<lparr>opcode = None, funct3 = None, funct7 = None\<rparr>
                | Some m \<Rightarrow>
                    (let f7 = sliceBits m 31 25
                     in \<lparr>opcode = Some (sliceBits m 6 0),
                         funct3 = Some (sliceBits m 14 12),
                         funct7 = (if all01 7 f7 then Some f7 else None)\<rparr>))))"

subsection \<open>FormatClassifier: \<^verbatim>\<open>detectEncodingType\<close>\<close>

text \<open>The decimal text of a number, as \<^verbatim>\<open>hi + "-" + lo\<close> builds it.\<close>

fun show_nat :: "nat \<Rightarrow> string" where
  "show_nat n =
     (if n < 10 then [char_of (48 + n)]
      else show_nat (n div 10) @ [char_of (48 + n mod 10)])"

text \<open>
  \<^verbatim>\<open>Object.fromEntries(doc.encoding.variables.map(v => [v.name, String(v.location)]))\<close>:
  of two entries with one name the later one stays.
\<close>

definition varsObject :: "variable list \<Rightarrow> string \<Rightarrow> string option" where
  "varsObject variables = map_of (rev (map (\<lambda>v. (v_name v, String_js (v_location v))) variables))"

text \<open>\<^verbatim>\<open>const eq = (name, hi, lo) => vars[name] === hi + "-" + lo;\<close>\<close>

definition eq :: "(string \<Rightarrow> string option) \<Rightarrow> string \<Rightarrow> nat \<Rightarrow> nat \<Rightarrow> bool" where
  "eq vars name hi lo = (vars name = Some (show_nat hi @ ''-'' @ show_nat lo))"

definition detectEncodingType :: "doc \<Rightarrow> string option" where
  "detectEncodingType doc =
     (case d_encoding doc of
        None \<Rightarrow> None
      | Some enc \<Rightarrow>
          (case e_variables enc of
             None \<Rightarrow> None
           | Some variables \<Rightarrow>
               (let vars = varsObject variables in
                if eq vars ''xd'' 11 7 \<and> eq vars ''xs1'' 19 15 \<and> vars ''imm'' = Some ''31-20''
                  then Some ''I''
                else if eq vars ''xd'' 11 7 \<and> eq vars ''xs1'' 19 15 \<and> eq vars ''xs2'' 24 20
                  then Some ''R''
                else if eq vars ''xs2'' 24 20 \<and> eq vars ''xs1'' 19 15 \<and> eq vars ''imm'' 11 7
                  then Some ''S''
                else if vars ''imm'' = Some ''31-12'' \<and> eq vars ''xd'' 11 7
                  then Some ''U''
                else if eq vars ''imm'' 31 12 \<and> eq vars ''xs1'' 19 15
                  then Some ''J''
                else if eq vars ''xs2'' 24 20 \<and> eq vars ''xs1'' 19 15 \<and> eq vars ''imm'' 11 7
                  then Some ''B''
                else None)))"

subsection \<open>BitfieldLayoutBuilder: \<^verbatim>\<open>standardizeBitfieldFields\<close>\<close>

text \<open>
  Step 1, the inner loop over the segments of one field:
  \<^verbatim>\<open>
  for (const seg of segments) {
    const hi = seg.from;
    const lo = seg.to;
    const width = hi - lo + 1;
    if (width <= 0) continue;
    const label = segments.length > 1 ? `${field.label}` : field.label;
    expanded.push({ label, from: hi, to: lo, width, kind: field.kind });
  }
  \<close>
  A label is a string, so both branches of the conditional give the label itself.
\<close>

fun expandSegments :: "bitfield \<Rightarrow> segment list \<Rightarrow> bitfield list \<Rightarrow> bitfield list" where
  "expandSegments field [] expanded = expanded"
| "expandSegments field (seg # segs) expanded =
     (let hi = seg_from seg; lo = seg_to seg; width = hi - lo + 1 in
      if width \<le> 0 then expandSegments field segs expanded
      else expandSegments field segs
             (expanded @ [\<lparr>f_label = f_label field, f_from = hi, f_to = lo, f_width = width,
                           f_kind = f_kind field, f_segments = None\<rparr>]))"

text \<open>
  The outer loop:
  \<^verbatim>\<open>
  for (const field of fields) {
    const segments = Array.isArray(field.segments) && field.segments.length
      ? field.segments
      : [{ from: field.from, to: field.to }];
    ...
  }
  \<close>
\<close>

fun expandFields :: "bitfield list \<Rightarrow> bitfield list \<Rightarrow> bitfield list" where
  "expandFields [] expanded = expanded"
| "expandFields (field # flds) expanded =
     (let segments = (case f_segments field of
                        Some (s # ss) \<Rightarrow> s # ss
                      | _ \<Rightarrow> [\<lparr>seg_from = f_from field, seg_to = f_to field\<rparr>])
      in expandFields flds (expandSegments field segments expanded))"

definition gapField :: "int \<Rightarrow> int \<Rightarrow> int \<Rightarrow> bitfield" where
  "gapField hi lo w =
     \<lparr>f_label = [], f_from = hi, f_to = lo, f_width = w, f_kind = ''gap'', f_segments = None\<rparr>"

text \<open>
  Step 2, the walk with the cursor \<^verbatim>\<open>nextBit\<close>:
  \<^verbatim>\<open>
  for (const seg of expanded) {
    if (nextBit > seg.from) {
      filled.push({ label: "", from: nextBit, to: seg.from + 1,
                    width: nextBit - seg.from, kind: "gap" });
    }
    filled.push(seg);
    nextBit = seg.to - 1;
  }
  \<close>
  The state is the pair of \<^verbatim>\<open>filled\<close> and \<^verbatim>\<open>nextBit\<close>.
\<close>

fun fillGaps :: "bitfield list \<Rightarrow> bitfield list \<Rightarrow> int \<Rightarrow> bitfield list \<times> int" where
  "fillGaps [] filled nextBit = (filled, nextBit)"
| "fillGaps (seg # segs) filled nextBit =
     (let filled1 = (if nextBit > f_from seg
                     then filled @ [gapField nextBit (f_from seg + 1) (nextBit - f_from seg)]
                     else filled)
      in fillGaps segs (filled1 @ [seg]) (f_to seg - 1))"

text \<open>
  \<^verbatim>\<open>
  expanded.sort((a, b) => b.from - a.from);
  const filled = [];
  let nextBit = totalBits - 1;
  ... the walk ...
  if (nextBit >= 0) {
    filled.push({ label: "", from: nextBit, to: 0, width: nextBit + 1, kind: "gap" });
  }
  filled.sort((a, b) => b.from - a.from);
  return filled;
  \<close>
\<close>

definition standardizeBitfieldFields :: "bitfield list \<Rightarrow> int \<Rightarrow> bitfield list" where
  "standardizeBitfieldFields flds totalBits =
     (let expanded = js_sort cmpFrom (expandFields flds []);
          (filled, nextBit) = fillGaps expanded [] (totalBits - 1);
          filled' = (if nextBit \<ge> 0 then filled @ [gapField nextBit 0 (nextBit + 1)]
                     else filled)
      in js_sort cmpFrom filled')"

subsection \<open>The classifier's predicates as a table\<close>

text \<open>
  The tags of \<^verbatim>\<open>detectEncodingType\<close> with their predicates, in the order of the
  \<^verbatim>\<open>if\<close> statements; \<open>predB\<close> is the predicate of the tag \<^verbatim>\<open>B\<close> in words of the
  location strings.
\<close>

definition tagPredicates :: "(string \<times> ((string \<Rightarrow> string option) \<Rightarrow> bool)) list" where
  "tagPredicates =
     [(''I'', \<lambda>vars. eq vars ''xd'' 11 7 \<and> eq vars ''xs1'' 19 15 \<and> vars ''imm'' = Some ''31-20''),
      (''R'', \<lambda>vars. eq vars ''xd'' 11 7 \<and> eq vars ''xs1'' 19 15 \<and> eq vars ''xs2'' 24 20),
      (''S'', \<lambda>vars. eq vars ''xs2'' 24 20 \<and> eq vars ''xs1'' 19 15 \<and> eq vars ''imm'' 11 7),
      (''U'', \<lambda>vars. vars ''imm'' = Some ''31-12'' \<and> eq vars ''xd'' 11 7),
      (''J'', \<lambda>vars. eq vars ''imm'' 31 12 \<and> eq vars ''xs1'' 19 15),
      (''B'', \<lambda>vars. eq vars ''xs2'' 24 20 \<and> eq vars ''xs1'' 19 15 \<and> eq vars ''imm'' 11 7)]"

definition predB :: "(string \<Rightarrow> string option) \<Rightarrow> bool" where
  "predB vars = (vars ''xs2'' = Some ''24-20'' \<and> vars ''xs1'' = Some ''19-15'' \<and> vars ''imm'' = Some ''11-7'')"

subsection \<open>Example documents\<close>

text \<open>A store-like document, and one that also has \<^verbatim>\<open>xd\<close> at \<^verbatim>\<open>11-7\<close>.\<close>

definition doc_sb :: doc where
  "doc_sb = \<lparr>d_encoding = Some \<lparr>e_match = Some ''-----------------000-----1100011'',
      e_variables = Some [\<lparr>v_name = ''xs2'', v_location = Str ''24-20''\<rparr>,
                          \<lparr>v_name = ''xs1'', v_location = Str ''19-15''\<rparr>,
                          \<lparr>v_name = ''imm'', v_location = Str ''11-7''\<rparr>],
      e_keys = [''match'', ''variables''], e_sub = []\<rparr>\<rparr>"

definition doc_rb :: doc where
  "doc_rb = \<lparr>d_encoding = Some \<lparr>e_match = Some ''0000000------------------0110011'',
      e_variables = Some [\<lparr>v_name = ''xd'', v_location = Str ''11-7''\<rparr>,
                          \<lparr>v_name = ''xs1'', v_location = Str ''19-15''\<rparr>,
                          \<lparr>v_name = ''xs2'', v_location = Str ''24-20''\<rparr>,
                          \<lparr>v_name = ''imm'', v_location = Str ''11-7''\<rparr>],
      e_keys = [''match'', ''variables''], e_sub = []\<rparr>\<rparr>"

text \<open>
  The document of \<^verbatim>\<open>lui\<close>, whose match has don't-care symbols at the span \<open>[14,12]\<close>,
  and a document whose encoding is keyed by variant (\<^verbatim>\<open>RV32\<close>, \<^verbatim>\<open>RV64\<close>), with no
  \<^verbatim>\<open>match\<close> of its own.
\<close>

definition doc_lui :: doc where
  "doc_lui = \<lparr>d_encoding = Some \<lparr>e_match = Some ''-------------------------0110111'',
      e_variables = Some [\<lparr>v_name = ''imm'', v_location = Str ''31-12''\<rparr>,
                          \<lparr>v_name = ''xd'', v_location = Str ''11-7''\<rparr>],
      e_keys = [''match'', ''variables''], e_sub = []\<rparr>\<rparr>"

definition doc_variant :: doc where
  "doc_variant = \<lparr>d_encoding = Some \<lparr>e_match = None, e_variables = None,
      e_keys = [''RV32'', ''RV64''],
      e_sub = [(''RV32'', \<lparr>se_match = Some ''0000000----------001-----0010011'',
                   se_variables = Some [\<lparr>v_name = ''shamt'', v_location = Str ''24-20''\<rparr>,
                                        \<lparr>v_name = ''xs1'', v_location = Str ''19-15''\<rparr>,
                                        \<lparr>v_name = ''xd'', v_location = Str ''11-7''\<rparr>]\<rparr>),
               (''RV64'', \<lparr>se_match = Some ''000000-----------001-----0010011'',
                   se_variables = Some [\<lparr>v_name = ''shamt'', v_location = Str ''25-20''\<rparr>,
                                        \<lparr>v_name = ''xs1'', v_location = Str ''19-15''\<rparr>,
                                        \<lparr>v_name = ''xd'', v_location = Str ''11-7''\<rparr>]\<rparr>)]\<rparr>\<rparr>"

text \<open>A variable in two segments, and one whose location does not parse.\<close>

definition var_imm :: variable where
  "var_imm = \<lparr>v_name = ''imm'', v_location = Str ''31-25|11-7''\<rparr>"

definition var_bad :: variable where
  "var_bad = \<lparr>v_name = ''shamt'', v_location = Str ''x-y''\<rparr>"

subsection \<open>Predicates on layouts\<close>

text \<open>
  Two entries overlap when their ranges \<open>[to, from]\<close> share a bit; a list is
  non-overlapping when no two of its entries overlap. \<open>chain c es\<close> says that the entries
  tile the bits from \<open>c\<close> down to 0 one after the other, each with a range that is not
  empty and with its width.
\<close>

definition overlap :: "bitfield \<Rightarrow> bitfield \<Rightarrow> bool" where
  "overlap a b = (f_to a \<le> f_from b \<and> f_to b \<le> f_from a)"

fun nonOverlapping :: "bitfield list \<Rightarrow> bool" where
  "nonOverlapping [] = True"
| "nonOverlapping (e # es) = (list_all (\<lambda>y. \<not> overlap e y) es \<and> nonOverlapping es)"

definition withinWord :: "int \<Rightarrow> bitfield list \<Rightarrow> bool" where
  "withinWord W es = list_all (\<lambda>e. 0 \<le> f_to e \<and> f_from e \<le> W - 1) es"

fun chain :: "int \<Rightarrow> bitfield list \<Rightarrow> bool" where
  "chain c [] = (c = - 1)"
| "chain c (e # es) =
     (f_from e = c \<and> f_to e \<le> f_from e \<and> f_width e = f_from e - f_to e + 1
      \<and> chain (f_to e - 1) es)"

text \<open>An entry is sized when its width is that of its range and positive.\<close>

definition sized :: "bitfield \<Rightarrow> bool" where
  "sized e = (f_width e = f_from e - f_to e + 1 \<and> 0 < f_width e)"

text \<open>
  What \<^verbatim>\<open>standardizeBitfieldFields\<close> returns from the state of the walk: the last gap,
  then the sort.
\<close>

definition finish :: "bitfield list \<times> int \<Rightarrow> bitfield list" where
  "finish st = (case st of (filled, nextBit) \<Rightarrow>
     (if nextBit \<ge> 0 then filled @ [gapField nextBit 0 (nextBit + 1)] else filled))"

text \<open>Fields for the examples.\<close>

definition field_a :: bitfield where
  "field_a = \<lparr>f_label = ''a'', f_from = 31, f_to = 20, f_width = 12, f_kind = ''var'',
              f_segments = Some [\<lparr>seg_from = 31, seg_to = 20\<rparr>]\<rparr>"

definition field_b :: bitfield where
  "field_b = \<lparr>f_label = ''b'', f_from = 25, f_to = 10, f_width = 16, f_kind = ''var'',
              f_segments = Some [\<lparr>seg_from = 25, seg_to = 10\<rparr>]\<rparr>"

definition field_high :: bitfield where
  "field_high = \<lparr>f_label = ''c'', f_from = 40, f_to = 35, f_width = 6, f_kind = ''var'',
                 f_segments = Some [\<lparr>seg_from = 40, seg_to = 35\<rparr>]\<rparr>"

definition field_imm :: bitfield where
  "field_imm = \<lparr>f_label = ''imm'', f_from = 31, f_to = 7, f_width = 12, f_kind = ''var'',
      f_segments = Some [\<lparr>seg_from = 31, seg_to = 25\<rparr>, \<lparr>seg_from = 11, seg_to = 7\<rparr>]\<rparr>"

definition field_opcode :: bitfield where
  "field_opcode = \<lparr>f_label = ''opcode=0100011'', f_from = 6, f_to = 0, f_width = 7,
      f_kind = ''const'', f_segments = None\<rparr>"

definition field_c16 :: bitfield where
  "field_c16 = \<lparr>f_label = ''const=100'', f_from = 15, f_to = 13, f_width = 3,
      f_kind = ''const'', f_segments = None\<rparr>"

subsection \<open>Maximal runs of a match pattern\<close>

text \<open>
  In the words of the specification: bit \<open>b\<close> of the pattern is constant when it lies in
  the word and its symbol is not the don't-care symbol; \<open>[hi, lo]\<close> is a maximal run
  when it is not empty, every bit in it is constant, and the bits next to it on both sides
  are not. \<open>bitsOf\<close> is the text of the symbols from bit \<open>hi\<close> down to bit \<open>lo\<close>, \<open>roleOf\<close>
  the role of a span, \<open>span\<close> the span of a field.
\<close>

definition isConst :: "string list \<Rightarrow> int \<Rightarrow> bool" where
  "isConst m b = (0 \<le> b \<and> b < int (length m) \<and> m ! nat (int (length m) - 1 - b) \<noteq> ''-'')"

definition maximalRun :: "string list \<Rightarrow> int \<Rightarrow> int \<Rightarrow> bool" where
  "maximalRun m hi lo =
     (lo \<le> hi \<and> (\<forall>b \<in> {lo..hi}. isConst m b) \<and> \<not> isConst m (hi + 1) \<and> \<not> isConst m (lo - 1))"

definition bitsOf :: "string list \<Rightarrow> int \<Rightarrow> int \<Rightarrow> string" where
  "bitsOf m hi lo = concat (map (\<lambda>b. m ! nat (int (length m) - 1 - b)) (rev [lo..hi]))"

definition roleOf :: "int \<Rightarrow> int \<Rightarrow> string" where
  "roleOf hi lo =
     (if (hi, lo) = (31, 25) then ''funct7''
      else if (hi, lo) = (14, 12) then ''funct3''
      else if (hi, lo) = (6, 0) then ''opcode''
      else ''const'')"

definition span :: "bitfield \<Rightarrow> int \<times> int" where
  "span f = (f_from f, f_to f)"

text \<open>The constant fields that the loop of \<^verbatim>\<open>computeFields\<close> pushes for a parsed match.\<close>

definition constFields :: "string list \<Rightarrow> bitfield list" where
  "constFields m = constLoop m (int (length m) - 1) []"

text \<open>
  Example documents: a register-register instruction, and a shift whose constant bits
  \<open>[31, 26]\<close> are not at one of the three named spans.
\<close>

definition doc_add :: doc where
  "doc_add = \<lparr>d_encoding = Some \<lparr>e_match = Some ''0000000----------000-----0110011'',
      e_variables = Some [\<lparr>v_name = ''xs2'', v_location = Str ''24-20''\<rparr>,
                          \<lparr>v_name = ''xs1'', v_location = Str ''19-15''\<rparr>,
                          \<lparr>v_name = ''xd'', v_location = Str ''11-7''\<rparr>],
      e_keys = [''match'', ''variables''], e_sub = []\<rparr>\<rparr>"

definition match_slli :: string where
  "match_slli = ''000000-----------001-----0010011''"

section \<open>Properties\<close>

subsection \<open>MatchPatternParser\<close>

lemma split_chars_length: "length (split_chars s) = length s"
  by (simp add: split_chars_def)

lemma split_chars_nth: "i < length s \<Longrightarrow> split_chars s ! i = [s ! i]"
  by (simp add: split_chars_def)

lemma split_chars_concat: "concat (split_chars s) = s"
  by (induction s) (simp_all add: split_chars_def)

text \<open>
  Claim C6, as the claim states it, read on the copy in
  \<^verbatim>\<open>src/src/lib/loadInstructions.js\<close>: a string of 16 characters is not exploded there,
  the result is \<^verbatim>\<open>null\<close>.
\<close>

theorem parseMatchBits_lib_rejects_16:
  "length ''0000000000000000'' = 16
   \<and> parseMatchBits_lib ''0000000000000000'' \<noteq> Some (split_chars ''0000000000000000'')
   \<and> parseMatchBits_lib ''0000000000000000'' = None"
  by (simp add: parseMatchBits_lib_def)

text \<open>
  Claim C6, amended: \<^verbatim>\<open>parseMatchBits\<close> of \<^verbatim>\<open>part_000\<close> returns the string exploded into
  one single-character symbol per position, in order, if and only if the length of the
  string is 16 or 32, and \<^verbatim>\<open>null\<close> for every other length; the copy in
  \<^verbatim>\<open>src/src/lib/loadInstructions.js\<close> does so if and only if the length is 32.
\<close>

theorem parseMatchBits_exploded_iff_width:
  "parseMatchBits s = (if length s = 16 \<or> length s = 32 then Some (split_chars s) else None)
   \<and> parseMatchBits_lib s = (if length s = 32 then Some (split_chars s) else None)
   \<and> length (split_chars s) = length s
   \<and> (\<forall>i < length s. split_chars s ! i = [s ! i])
   \<and> concat (split_chars s) = s"
  by (auto simp: parseMatchBits_def parseMatchBits_lib_def split_chars_length
      split_chars_nth split_chars_concat)

theorem parseMatchBits_exploded_iff_width_witness:
  "parseMatchBits ''0000000----------000-----0110011''
     = Some [''0'', ''0'', ''0'', ''0'', ''0'', ''0'', ''0'', ''-'', ''-'', ''-'', ''-'',
             ''-'', ''-'', ''-'', ''-'', ''-'', ''-'', ''0'', ''0'', ''0'', ''-'', ''-'',
             ''-'', ''-'', ''-'', ''0'', ''1'', ''1'', ''0'', ''0'', ''1'', ''1'']
   \<and> parseMatchBits ''0000000----------000-----0110011-'' = None
   \<and> parseMatchBits '''' = None
   \<and> parseMatchBits_lib ''1000000000000001'' = None
   \<and> parseMatchBits ''1000000000000001''
     = Some [''1'', ''0'', ''0'', ''0'', ''0'', ''0'', ''0'', ''0'', ''0'', ''0'', ''0'',
             ''0'', ''0'', ''0'', ''0'', ''1'']"
  using parseMatchBits_exploded_iff_width [of "''0000000----------000-----0110011''"]
    parseMatchBits_exploded_iff_width [of "''0000000----------000-----0110011-''"]
    parseMatchBits_exploded_iff_width [of "''''"]
    parseMatchBits_exploded_iff_width [of "''1000000000000001''"]
  by (simp add: split_chars_def)

subsection \<open>Sorting\<close>

lemma js_insort_set: "set (js_insort cmp x ys) = insert x (set ys)"
  by (induction ys) auto

lemma js_insort_mset: "mset (js_insort cmp x ys) = add_mset x (mset ys)"
  by (induction ys) auto

lemma js_sort_mset: "mset (js_sort cmp xs) = mset xs"
  by (induction xs) (simp_all add: js_sort_def js_insort_mset)

lemma js_sort_set: "set (js_sort cmp xs) = set xs"
  using js_sort_mset [of cmp xs] by (metis set_mset_mset)

lemma js_sort_length: "length (js_sort cmp xs) = length xs"
  using js_sort_mset [of cmp xs] by (metis size_mset)

lemma js_sort_Nil: "js_sort cmp [] = []"
  by (simp add: js_sort_def)

lemma js_sort_Cons: "js_sort cmp (x # xs) = js_insort cmp x (js_sort cmp xs)"
  by (simp add: js_sort_def)

lemma js_insort_sorted:
  assumes total: "\<And>x y. cmp x y \<le> 0 \<or> cmp y x \<le> 0"
    and trans: "\<And>x y z. cmp x y \<le> 0 \<Longrightarrow> cmp y z \<le> 0 \<Longrightarrow> cmp x z \<le> 0"
    and "sorted_wrt (\<lambda>a b. cmp a b \<le> 0) ys"
  shows "sorted_wrt (\<lambda>a b. cmp a b \<le> 0) (js_insort cmp x ys)"
  using assms(3)
proof (induction ys)
  case Nil
  then show ?case by simp
next
  case (Cons y ys)
  show ?case
  proof (cases "cmp x y \<le> 0")
    case True
    with Cons.prems trans show ?thesis by auto
  next
    case False
    with total have "cmp y x \<le> 0" by blast
    with False Cons show ?thesis by (auto simp: js_insort_set)
  qed
qed

lemma js_sort_sorted:
  assumes total: "\<And>x y. cmp x y \<le> 0 \<or> cmp y x \<le> 0"
    and trans: "\<And>x y z. cmp x y \<le> 0 \<Longrightarrow> cmp y z \<le> 0 \<Longrightarrow> cmp x z \<le> 0"
  shows "sorted_wrt (\<lambda>a b. cmp a b \<le> 0) (js_sort cmp xs)"
proof (induction xs)
  case Nil
  show ?case by (simp add: js_sort_Nil)
next
  case (Cons x xs)
  show ?case
    unfolding js_sort_Cons by (rule js_insort_sorted [OF total trans Cons.IH])
qed

subsection \<open>BitLocationParser\<close>

lemma cmpSegments_le:
  "cmpSegments a b \<le> 0 \<longleftrightarrow>
     seg_from b < seg_from a \<or> (seg_from a = seg_from b \<and> seg_to b \<le> seg_to a)"
  by (auto simp: cmpSegments_def)

lemma parsePart_normal: "parsePart p = Some g \<Longrightarrow> seg_to g \<le> seg_from g"
  by (auto simp: parsePart_def split: option.splits)

lemma set_map_filter: "set (List.map_filter f xs) = {y. \<exists>x\<in>set xs. f x = Some y}"
  by (induction xs) (auto simp: List.map_filter_simps split: option.splits)

lemma parseLocationSegments_sorted:
  "sorted_wrt (\<lambda>a b. seg_from b < seg_from a \<or> (seg_from a = seg_from b \<and> seg_to b \<le> seg_to a))
     (parseLocationSegments loc)"
proof (cases loc)
  case (Str s)
  have "sorted_wrt (\<lambda>a b. cmpSegments a b \<le> 0)
          (js_sort cmpSegments (List.map_filter parsePart (locationParts s)))"
    by (rule js_sort_sorted) (auto simp: cmpSegments_le)
  with Str show ?thesis
    by (simp add: parseLocationSegments_def cmpSegments_le)
qed (simp_all add: parseLocationSegments_def)

lemma js_split_not_Nil: "js_split sep s \<noteq> []"
  by (induction s) (auto split: list.splits)

lemma js_split_append:
  "js_split sep (a @ sep # b) = js_split sep a @ js_split sep b"
proof (induction a)
  case Nil
  show ?case by simp
next
  case (Cons c a)
  then show ?case
    using js_split_not_Nil [of sep a] by (cases "js_split sep a") auto
qed

lemma js_split_single: "sep \<notin> set s \<Longrightarrow> js_split sep s = [s]"
  by (induction s) auto

lemma locationParts_append:
  "locationParts (a @ ''|'' @ b) = locationParts a @ locationParts b"
  by (simp add: locationParts_def js_split_append)

lemma map_filter_append: "List.map_filter f (xs @ ys) = List.map_filter f xs @ List.map_filter f ys"
  by (simp add: List.map_filter_def)

lemma map_filter_parsePart:
  "List.map_filter parsePart ps =
     map (\<lambda>(h, l). \<lparr>seg_from = max h l, seg_to = min h l\<rparr>) (List.map_filter endpoints ps)"
  by (induction ps) (auto simp: List.map_filter_simps parsePart_def split: option.splits)

lemma parseLocationSegments_Str_mset:
  "mset (parseLocationSegments (Str s)) = mset (List.map_filter parsePart (locationParts s))"
  by (simp add: parseLocationSegments_def js_sort_mset)

lemma parseLocationSegments_normal:
  "g \<in> set (parseLocationSegments loc) \<Longrightarrow> seg_to g \<le> seg_from g"
  by (cases loc)
    (auto simp: parseLocationSegments_def js_sort_set set_map_filter dest: parsePart_normal)

lemmas eval_parse = parseLocationSegments_def locationParts_def js_trim_def is_ws_def
  parsePart_def endpoints_def parseInt_def is_digit_def digit_val_def js_sort_def
  cmpSegments_def List.map_filter_def

text \<open>
  Claim C4: for every location, \<^verbatim>\<open>parseLocationSegments\<close> returns ranges with
  \<open>low \<le> high\<close>, sorted descending by \<open>high\<close> with ties broken by descending
  \<open>low\<close>; the ranges are exactly the parseable pieces, each with \<open>high\<close> the maximum
  and \<open>low\<close> the minimum of its two endpoints (in either order); and
  \<^verbatim>\<open>"31-25|11-7"\<close> gives the ranges \<open>{31,25}\<close> and \<open>{11,7}\<close> of widths 7 and 5.
\<close>

theorem parseLocationSegments_normalized_sorted:
  "(\<forall>g \<in> set (parseLocationSegments loc). seg_to g \<le> seg_from g)
   \<and> sorted_wrt (\<lambda>a b. seg_from b < seg_from a
                        \<or> (seg_from a = seg_from b \<and> seg_to b \<le> seg_to a))
        (parseLocationSegments loc)
   \<and> (\<forall>s. loc = Str s \<longrightarrow>
         mset (parseLocationSegments loc) =
         mset (map (\<lambda>(h, l). \<lparr>seg_from = max h l, seg_to = min h l\<rparr>)
                (List.map_filter endpoints (locationParts s))))
   \<and> parseLocationSegments (Str ''31-25|11-7'')
       = [\<lparr>seg_from = 31, seg_to = 25\<rparr>, \<lparr>seg_from = 11, seg_to = 7\<rparr>]
   \<and> map (\<lambda>g. seg_from g - seg_to g + 1) (parseLocationSegments (Str ''31-25|11-7'')) = [7, 5]"
proof -
  have ex: "parseLocationSegments (Str ''31-25|11-7'')
       = [\<lparr>seg_from = 31, seg_to = 25\<rparr>, \<lparr>seg_from = 11, seg_to = 7\<rparr>]"
    by (simp add: eval_parse)
  have "\<forall>s. loc = Str s \<longrightarrow>
         mset (parseLocationSegments loc) =
         mset (map (\<lambda>(h, l). \<lparr>seg_from = max h l, seg_to = min h l\<rparr>)
                (List.map_filter endpoints (locationParts s)))"
    by (simp add: parseLocationSegments_Str_mset map_filter_parsePart)
  moreover have "\<forall>g \<in> set (parseLocationSegments loc). seg_to g \<le> seg_from g"
    using parseLocationSegments_normal by blast
  ultimately show ?thesis
    using parseLocationSegments_sorted [of loc] ex by simp
qed

theorem parseLocationSegments_normalized_sorted_witness:
  "parseLocationSegments (Str '' 7 - 11 |31-25| 7-9'')
     = [\<lparr>seg_from = 31, seg_to = 25\<rparr>, \<lparr>seg_from = 11, seg_to = 7\<rparr>,
        \<lparr>seg_from = 9, seg_to = 7\<rparr>]
   \<and> List.map_filter endpoints (locationParts '' 7 - 11 |31-25| 7-9'')
     = [(7, 11), (31, 25), (7, 9)]
   \<and> seg_to (parseLocationSegments (Str '' 7 - 11 |31-25| 7-9'') ! 1)
     \<le> seg_from (parseLocationSegments (Str '' 7 - 11 |31-25| 7-9'') ! 1)"
  using parseLocationSegments_normalized_sorted [of "Str '' 7 - 11 |31-25| 7-9''"]
  by (simp add: eval_parse)

lemma parseLocationSegments_piece:
  assumes "CHR ''|'' \<notin> set p"
  shows "parseLocationSegments (Str p) =
           (if js_trim p = [] then [] else
            case endpoints (js_trim p) of None \<Rightarrow> []
            | Some (h, l) \<Rightarrow> [\<lparr>seg_from = max h l, seg_to = min h l\<rparr>])"
  using assms
  by (simp add: parseLocationSegments_def locationParts_def js_split_single
      List.map_filter_simps parsePart_def js_sort_def split: option.splits)

text \<open>
  Claim C5: an absent (\<^verbatim>\<open>undefined\<close>, \<^verbatim>\<open>null\<close>) or empty location gives the empty
  sequence; the pieces of a location are parsed independently of one another (the result
  for \<open>a|b\<close> holds the ranges of \<open>a\<close> and those of \<open>b\<close>), a piece whose endpoints
  do not parse to two integers contributes nothing, and a piece whose endpoints parse
  contributes its range. The endpoints of a piece are \<open>endpoints\<close>: a piece with a single
  index \<open>n\<close> has the endpoints \<open>(n, n)\<close>. The function is total: no error is raised.
\<close>

theorem parseLocationSegments_lenient:
  "parseLocationSegments Undefined = []
   \<and> parseLocationSegments Null = []
   \<and> parseLocationSegments (Str []) = []
   \<and> mset (parseLocationSegments (Str (a @ ''|'' @ b)))
       = mset (parseLocationSegments (Str a)) + mset (parseLocationSegments (Str b))
   \<and> (CHR ''|'' \<notin> set p \<longrightarrow> endpoints (js_trim p) = None \<longrightarrow>
        parseLocationSegments (Str p) = [])
   \<and> (CHR ''|'' \<notin> set p \<longrightarrow> js_trim p \<noteq> [] \<longrightarrow> endpoints (js_trim p) = Some (h, l) \<longrightarrow>
        parseLocationSegments (Str p) = [\<lparr>seg_from = max h l, seg_to = min h l\<rparr>])"
proof -
  have "mset (parseLocationSegments (Str (a @ ''|'' @ b)))
       = mset (parseLocationSegments (Str a)) + mset (parseLocationSegments (Str b))"
    by (simp only: parseLocationSegments_Str_mset locationParts_append map_filter_append
        mset_append)
  moreover have "parseLocationSegments (Str []) = []"
    by (simp add: eval_parse)
  ultimately show ?thesis
    by (simp add: parseLocationSegments_piece) (simp add: parseLocationSegments_def)
qed

theorem parseLocationSegments_lenient_witness:
  "parseLocationSegments (Str ''31-25|x-3'') = [\<lparr>seg_from = 31, seg_to = 25\<rparr>]
   \<and> parseLocationSegments (Str ''x-3'') = []
   \<and> endpoints (js_trim ''x-3'') = None
   \<and> parseLocationSegments (Str ''12-y|11-7'') = [\<lparr>seg_from = 11, seg_to = 7\<rparr>]
   \<and> parseLocationSegments (Str ''11-7'') = [\<lparr>seg_from = 11, seg_to = 7\<rparr>]
   \<and> endpoints (js_trim ''11-7'') = Some (11, 7)
   \<and> endpoints (js_trim ''12'') = Some (12, 12)"
  using parseLocationSegments_lenient [of "''31-25''" "''x-3''" "''x-3''" 0 0]
    parseLocationSegments_lenient [of "''12-y''" "''11-7''" "''11-7''" 11 7]
  by (simp add: eval_parse)

subsection \<open>FormatClassifier\<close>


lemma show_nat_values:
  "show_nat 7 = ''7''" "show_nat 11 = ''11''" "show_nat 12 = ''12''" "show_nat 15 = ''15''"
  "show_nat 19 = ''19''" "show_nat 20 = ''20''" "show_nat 24 = ''24''" "show_nat 31 = ''31''"
  by code_simp+

lemma eq_values:
  "eq vars name 11 7 \<longleftrightarrow> vars name = Some ''11-7''"
  "eq vars name 19 15 \<longleftrightarrow> vars name = Some ''19-15''"
  "eq vars name 24 20 \<longleftrightarrow> vars name = Some ''24-20''"
  "eq vars name 31 12 \<longleftrightarrow> vars name = Some ''31-12''"
  unfolding eq_def show_nat_values by simp_all

lemma detectEncodingType_unfold:
  "detectEncodingType \<lparr>d_encoding = Some enc\<rparr> =
     (case e_variables enc of None \<Rightarrow> None
      | Some variables \<Rightarrow> map_option fst (find (\<lambda>(t, p). p (varsObject variables)) tagPredicates))"
  by (simp add: detectEncodingType_def tagPredicates_def Let_def split: option.splits)

text \<open>
  Claim C3, amended: \<^verbatim>\<open>detectEncodingType\<close> returns the first tag of the table whose
  predicate holds, and never \<^verbatim>\<open>B\<close>: the predicates of \<^verbatim>\<open>S\<close> and \<^verbatim>\<open>B\<close> are the same
  (\<^verbatim>\<open>xs2\<close> at \<^verbatim>\<open>24-20\<close>, \<^verbatim>\<open>xs1\<close> at \<^verbatim>\<open>19-15\<close>, \<^verbatim>\<open>imm\<close> at \<^verbatim>\<open>11-7\<close>) and \<^verbatim>\<open>S\<close>
  is tested first. Where that predicate holds the result is \<^verbatim>\<open>R\<close> if \<^verbatim>\<open>xd\<close> is at
  \<^verbatim>\<open>11-7\<close> as well (the test of \<^verbatim>\<open>R\<close> comes before that of \<^verbatim>\<open>S\<close>), and \<^verbatim>\<open>S\<close>
  otherwise.
\<close>

theorem detectEncodingType_first_match_never_B:
  "detectEncodingType doc \<noteq> Some ''B''
   \<and> (\<forall>enc variables. d_encoding doc = Some enc \<longrightarrow> e_variables enc = Some variables \<longrightarrow>
        detectEncodingType doc =
          map_option fst (find (\<lambda>(t, p). p (varsObject variables)) tagPredicates)
        \<and> (snd (tagPredicates ! 5) (varsObject variables) \<longleftrightarrow> predB (varsObject variables))
        \<and> (snd (tagPredicates ! 2) (varsObject variables) \<longleftrightarrow> predB (varsObject variables))
        \<and> (predB (varsObject variables) \<longrightarrow>
             detectEncodingType doc =
               (if varsObject variables ''xd'' = Some ''11-7'' then Some ''R'' else Some ''S'')))"
proof -
  have never: "detectEncodingType doc \<noteq> Some ''B''"
    by (auto simp: detectEncodingType_def Let_def split: option.splits)
  have first: "detectEncodingType doc =
          map_option fst (find (\<lambda>(t, p). p (varsObject variables)) tagPredicates)"
    if "d_encoding doc = Some enc" "e_variables enc = Some variables" for enc variables
    using that by (simp add: detectEncodingType_def tagPredicates_def Let_def)
  have b: "snd (tagPredicates ! 5) vars \<longleftrightarrow> predB vars"
    and s: "snd (tagPredicates ! 2) vars \<longleftrightarrow> predB vars" for vars
    by (simp_all add: tagPredicates_def predB_def eq_values)
  have res: "detectEncodingType doc =
               (if varsObject variables ''xd'' = Some ''11-7'' then Some ''R'' else Some ''S'')"
    if "d_encoding doc = Some enc" "e_variables enc = Some variables"
      "predB (varsObject variables)" for enc variables
    using that by (simp add: detectEncodingType_def Let_def predB_def eq_values)
  show ?thesis
    using never first b s res by blast
qed

text \<open>
  Claim C3 as stated says that \<^verbatim>\<open>S\<close> is returned on every input on which the predicate
  of \<^verbatim>\<open>B\<close> holds. With \<^verbatim>\<open>xd\<close> at \<^verbatim>\<open>11-7\<close> next to \<^verbatim>\<open>xs1\<close>, \<^verbatim>\<open>xs2\<close> and \<^verbatim>\<open>imm\<close> the
  predicate holds and the result is \<^verbatim>\<open>R\<close>.
\<close>

theorem detectEncodingType_B_predicate_gives_R:
  "snd (tagPredicates ! 5) (varsObject (the (e_variables (the (d_encoding doc_rb)))))
   \<and> detectEncodingType doc_rb = Some ''R''
   \<and> detectEncodingType doc_rb \<noteq> Some ''S''"
  by (simp add: doc_rb_def tagPredicates_def detectEncodingType_def varsObject_def
      String_js_def eq_values Let_def)

theorem detectEncodingType_first_match_never_B_witness:
  "detectEncodingType doc_sb = Some ''S''
   \<and> predB (varsObject (the (e_variables (the (d_encoding doc_sb)))))
   \<and> detectEncodingType doc_rb = Some ''R''
   \<and> predB (varsObject (the (e_variables (the (d_encoding doc_rb)))))"
  using detectEncodingType_first_match_never_B [of doc_sb]
    detectEncodingType_first_match_never_B [of doc_rb]
  by (simp add: doc_sb_def doc_rb_def predB_def varsObject_def String_js_def
      detectEncodingType_def eq_values Let_def)

subsection \<open>The derived strings\<close>


lemma js_slice_map: "js_slice (map f xs) a b = map f (js_slice xs a b)"
  by (simp add: js_slice_def Let_def take_map drop_map)

lemma concat_singletons: "concat (map (\<lambda>c. [c]) xs) = xs"
  by (induction xs) simp_all

lemma concat_split_chars_slice:
  "concat (js_slice (split_chars s) a b) = js_slice s a b"
  by (simp add: split_chars_def js_slice_map concat_singletons)

lemma sliceBits_32:
  assumes "length s = 32"
  shows "sliceBits (split_chars s) 6 0 = drop 25 s"
    and "sliceBits (split_chars s) 14 12 = take 3 (drop 17 s)"
    and "sliceBits (split_chars s) 31 25 = take 7 s"
  unfolding sliceBits_def concat_split_chars_slice
  using assms by (simp_all add: js_slice_def)

text \<open>
  What lines 226 to 238 of \<^verbatim>\<open>loadInstructions\<close> compute. Without a \<^verbatim>\<open>match\<close> directly
  under \<^verbatim>\<open>doc.encoding\<close> the three strings stay \<^verbatim>\<open>undefined\<close>. With one of 32
  characters, the opcode and the funct3 are the slices at \<open>[6,0]\<close> and \<open>[14,12]\<close> as
  they stand; only the slice at \<open>[31,25]\<close> passes through the test \<^verbatim>\<open>/^[01]{7}$/\<close>.
\<close>

lemma derivedStrings_no_match:
  "d_encoding doc = None \<or> (\<exists>enc. d_encoding doc = Some enc \<and> e_match enc = None) \<Longrightarrow>
   derivedStrings doc = \<lparr>opcode = None, funct3 = None, funct7 = None\<rparr>"
  by (auto simp: derivedStrings_def)

lemma derivedStrings_top_level:
  assumes "d_encoding doc = Some enc" and "e_match enc = Some s" and "length s = 32"
  shows "derivedStrings doc =
      \<lparr>opcode = Some (drop 25 s), funct3 = Some (take 3 (drop 17 s)),
        funct7 = (if all01 7 (take 7 s) then Some (take 7 s) else None)\<rparr>"
proof -
  from assms(3) have "s \<noteq> []" by auto
  with assms show ?thesis
    by (simp add: derivedStrings_def parseMatchBits_def sliceBits_32 Let_def)
qed

text \<open>
  Claim C9: for every instruction record with a parsed 32-bit match pattern the opcode,
  funct3 and funct7 strings are re-sliced from the pattern and each slice is validated to
  be all \<^verbatim>\<open>0\<close>/\<^verbatim>\<open>1\<close>. The code does not do this. For \<^verbatim>\<open>lui\<close> it reports the funct3
  \<^verbatim>\<open>---\<close>, a slice of don't-care symbols: the test applied to the funct7 on the next line
  is not applied to the opcode and the funct3, although \<^verbatim>\<open>computeFields\<close> finds no constant
  at \<open>[14,12]\<close> for this match, in \<^verbatim>\<open>part_000\<close> and in
  \<^verbatim>\<open>src/src/lib/loadInstructions.js\<close>, whose \<^verbatim>\<open>computeFields\<close> tests that very slice with
  \<^verbatim>\<open>/^[01]{3}$/\<close>. For a record keyed by variant, \<^verbatim>\<open>computeFields\<close> resolves the
  \<^verbatim>\<open>RV32\<close> pattern and finds its three constants, while the three strings stay
  \<^verbatim>\<open>undefined\<close>, since only \<^verbatim>\<open>doc.encoding.match\<close> is looked at.
\<close>

theorem derivedStrings_at_failing_inputs:
  "derivedStrings doc_lui = \<lparr>opcode = Some ''0110111'', funct3 = Some ''---'', funct7 = None\<rparr>
   \<and> \<not> all01 3 ''---''
   \<and> map f_label (filter (\<lambda>f. f_kind f = ''const'') (computeFields doc_lui)) = [''opcode=0110111'']
   \<and> map f_label (constFields_lib (split_chars ''-------------------------0110111'') [])
       = [''opcode=0110111'']
   \<and> derivedStrings doc_variant = \<lparr>opcode = None, funct3 = None, funct7 = None\<rparr>
   \<and> map f_label (filter (\<lambda>f. f_kind f = ''const'') (computeFields doc_variant))
       = [''funct7=0000000'', ''funct3=001'', ''opcode=0010011'']"
proof -
  have 1: "derivedStrings doc_lui
      = \<lparr>opcode = Some ''0110111'', funct3 = Some ''---'', funct7 = None\<rparr>"
    by code_simp
  have 2: "\<not> all01 3 ''---''"
    by (simp add: all01_def)
  have 3: "map f_label (filter (\<lambda>f. f_kind f = ''const'') (computeFields doc_lui))
      = [''opcode=0110111'']"
    by code_simp
  have 4: "map f_label (constFields_lib (split_chars ''-------------------------0110111'') [])
      = [''opcode=0110111'']"
    by code_simp
  have 5: "derivedStrings doc_variant = \<lparr>opcode = None, funct3 = None, funct7 = None\<rparr>"
    by (simp add: derivedStrings_def doc_variant_def)
  have 6: "map f_label (filter (\<lambda>f. f_kind f = ''const'') (computeFields doc_variant))
      = [''funct7=0000000'', ''funct3=001'', ''opcode=0010011'']"
    by code_simp
  from 1 2 3 4 5 6 show ?thesis by simp
qed

subsection \<open>FieldResolver: the variable fields\<close>

lemma foldl_max_Max: "foldl max (a :: int) xs = Max (set (a # xs))"
proof (induction xs arbitrary: a)
  case Nil
  show ?case by simp
next
  case (Cons x xs)
  have "Max (set (max a x # xs)) = Max (set (a # x # xs))"
    by (cases "xs = []") (simp_all add: max.assoc)
  with Cons show ?case by simp
qed

lemma foldl_min_Min: "foldl min (a :: int) xs = Min (set (a # xs))"
proof (induction xs arbitrary: a)
  case Nil
  show ?case by simp
next
  case (Cons x xs)
  have "Min (set (min a x # xs)) = Min (set (a # x # xs))"
    by (cases "xs = []") (simp_all add: min.assoc)
  with Cons show ?case by simp
qed

lemma foldl_widths:
  "foldl (\<lambda>sum s. sum + (seg_from s - seg_to s + 1)) a segs
     = a + (\<Sum>s\<leftarrow>segs. seg_from s - seg_to s + 1)"
  by (induction segs arbitrary: a) simp_all

lemma varLoop_append: "varLoop vars flds = flds @ varLoop vars []"
proof (induction vars arbitrary: flds)
  case Nil
  show ?case by simp
next
  case (Cons v vars)
  show ?case
  proof (cases "parseLocationSegments (v_location v)")
    case Nil
    with Cons [of flds] show ?thesis by simp
  next
    case (Cons s ss)
    then show ?thesis
      using Cons.IH [of "flds @ [x]" for x] Cons.IH [of "[x]" for x]
      by (simp add: Let_def)
  qed
qed

lemma varLoop_concat: "varLoop vars flds = flds @ concat (map (\<lambda>v. varLoop [v] []) vars)"
proof (induction vars arbitrary: flds)
  case Nil
  show ?case by simp
next
  case (Cons v vars)
  have "varLoop (v # vars) flds = varLoop vars (varLoop [v] flds)"
    by (simp add: Let_def split: list.splits)
  also have "\<dots> = varLoop [v] flds @ concat (map (\<lambda>v. varLoop [v] []) vars)"
    by (rule Cons.IH)
  also have "varLoop [v] flds = flds @ varLoop [v] []"
    by (rule varLoop_append)
  finally show ?case by simp
qed

lemma varLoop_single:
  "varLoop [v] [] =
     (let segs = parseLocationSegments (v_location v) in
      if segs = [] then []
      else [\<lparr>f_label = v_name v,
             f_from = Max (seg_from ` set segs),
             f_to = Min (seg_to ` set segs),
             f_width = (\<Sum>s\<leftarrow>segs. seg_from s - seg_to s + 1),
             f_kind = ''var'',
             f_segments = Some segs\<rparr>])"
proof (cases "parseLocationSegments (v_location v)")
  case Nil
  then show ?thesis by simp
next
  case (Cons s ss)
  have "foldl max (seg_from s) (map seg_from ss) = Max (seg_from ` set (s # ss))"
    unfolding foldl_max_Max by simp
  moreover have "foldl min (seg_to s) (map seg_to ss) = Min (seg_to ` set (s # ss))"
    unfolding foldl_min_Min by simp
  ultimately show ?thesis
    using Cons by (simp add: Let_def foldl_widths del: foldl_Cons)
qed


subsection \<open>BitfieldLayoutBuilder\<close>

lemma expandSegments_append:
  "expandSegments field segs expanded = expanded @ expandSegments field segs []"
proof (induction segs arbitrary: expanded)
  case Nil
  show ?case by simp
next
  case (Cons seg segs)
  show ?case
    using Cons [of "expanded @ [x]" for x] Cons [of "[x]" for x]
    by (simp add: Let_def) (use Cons in blast)
qed


lemma expandSegments_sized:
  "list_all sized expanded \<Longrightarrow> list_all sized (expandSegments field segs expanded)"
  by (induction segs arbitrary: expanded) (auto simp: Let_def sized_def)

lemma expandFields_sized:
  "list_all sized expanded \<Longrightarrow> list_all sized (expandFields flds expanded)"
  by (induction flds arbitrary: expanded) (auto simp: Let_def expandSegments_sized)

lemma fillGaps_sized:
  "list_all sized segs \<Longrightarrow> list_all sized filled \<Longrightarrow>
   list_all sized (fst (fillGaps segs filled nextBit))"
  by (induction segs arbitrary: filled nextBit) (auto simp: Let_def sized_def gapField_def)

lemma js_sort_list_all: "list_all P (js_sort cmp xs) = list_all P xs"
  by (simp add: list_all_iff js_sort_set)

lemma standardize_unfold:
  "standardizeBitfieldFields flds totalBits =
     js_sort cmpFrom (finish (fillGaps (js_sort cmpFrom (expandFields flds [])) [] (totalBits - 1)))"
  by (simp add: standardizeBitfieldFields_def finish_def Let_def split: prod.splits)

lemma finish_sized: "list_all sized (fst st) \<Longrightarrow> list_all sized (finish st)"
  by (cases st) (auto simp: finish_def sized_def gapField_def)

lemma standardize_sized: "list_all sized (standardizeBitfieldFields flds totalBits)"
  unfolding standardize_unfold js_sort_list_all
  by (intro finish_sized fillGaps_sized) (simp_all add: js_sort_list_all expandFields_sized)

lemma fillGaps_mset:
  "\<exists>gaps. mset (fst (fillGaps segs filled nextBit)) = mset filled + mset segs + mset gaps
     \<and> (\<forall>g \<in> set gaps. f_kind g = ''gap'' \<and> f_label g = [] \<and> sized g)"
proof (induction segs arbitrary: filled nextBit)
  case Nil
  have "mset (fst (fillGaps [] filled nextBit)) = mset filled + mset [] + mset []
     \<and> (\<forall>g \<in> set []. f_kind g = ''gap'' \<and> f_label g = [] \<and> sized g)"
    by simp
  then show ?case by blast
next
  case (Cons seg segs)
  let ?new = "if nextBit > f_from seg
              then [gapField nextBit (f_from seg + 1) (nextBit - f_from seg)] else []"
  from Cons [of "(filled @ ?new) @ [seg]" "f_to seg - 1"]
  obtain gaps where g: "mset (fst (fillGaps segs ((filled @ ?new) @ [seg]) (f_to seg - 1)))
       = mset ((filled @ ?new) @ [seg]) + mset segs + mset gaps"
    "\<forall>g \<in> set gaps. f_kind g = ''gap'' \<and> f_label g = [] \<and> sized g"
    by blast
  have eq: "fillGaps (seg # segs) filled nextBit
      = fillGaps segs ((filled @ ?new) @ [seg]) (f_to seg - 1)"
    by (simp add: Let_def)
  have "mset (fst (fillGaps (seg # segs) filled nextBit))
      = mset filled + mset (seg # segs) + mset (?new @ gaps)"
    unfolding eq g(1) by simp
  moreover have "\<forall>g \<in> set (?new @ gaps). f_kind g = ''gap'' \<and> f_label g = [] \<and> sized g"
    using g(2) by (auto simp: gapField_def sized_def)
  ultimately show ?case by blast
qed

lemma standardize_mset:
  "\<exists>gaps. mset (standardizeBitfieldFields flds totalBits)
       = mset (expandFields flds []) + mset gaps
     \<and> (\<forall>g \<in> set gaps. f_kind g = ''gap'' \<and> f_label g = [] \<and> sized g)"
proof -
  let ?E = "js_sort cmpFrom (expandFields flds [])"
  obtain filled nextBit where st: "fillGaps ?E [] (totalBits - 1) = (filled, nextBit)"
    by (cases "fillGaps ?E [] (totalBits - 1)")
  from fillGaps_mset [of ?E "[]" "totalBits - 1"] st
  obtain gaps where g: "mset filled = mset ?E + mset gaps"
    "\<forall>g \<in> set gaps. f_kind g = ''gap'' \<and> f_label g = [] \<and> sized g"
    by auto
  let ?last = "if nextBit \<ge> 0 then [gapField nextBit 0 (nextBit + 1)] else []"
  have "mset (standardizeBitfieldFields flds totalBits)
      = mset (expandFields flds []) + mset (gaps @ ?last)"
    unfolding standardize_unfold st finish_def using g(1)
    by (simp add: js_sort_mset)
  moreover have "\<forall>g \<in> set (gaps @ ?last). f_kind g = ''gap'' \<and> f_label g = [] \<and> sized g"
    using g(2) by (auto simp: gapField_def sized_def)
  ultimately show ?thesis by blast
qed

text \<open>
  Claim C10: for every field list and every width, also when segments overlap,
  \<^verbatim>\<open>standardizeBitfieldFields\<close> returns a list (the function is total) in which every
  entry, so every gap entry, has a positive width, equal to \<open>from - to + 1\<close>: no gap of
  zero or negative width is emitted. The result holds every expanded segment as it is, and
  beside them only gaps with an empty label and a positive width: where segments overlap
  no entry is inserted and none is dropped.
\<close>

theorem standardizeBitfieldFields_no_empty_gap:
  "(\<forall>e \<in> set (standardizeBitfieldFields flds totalBits).
      0 < f_width e \<and> f_width e = f_from e - f_to e + 1
      \<and> (f_kind e = ''gap'' \<longrightarrow> 0 < f_width e))
   \<and> (\<exists>gaps. mset (standardizeBitfieldFields flds totalBits)
                 = mset (expandFields flds []) + mset gaps
          \<and> (\<forall>g \<in> set gaps. f_kind g = ''gap'' \<and> f_label g = [] \<and> 0 < f_width g
                \<and> f_width g = f_from g - f_to g + 1))"
  using standardize_sized [of flds totalBits] standardize_mset [of flds totalBits]
  by (auto simp: list_all_iff sized_def)

lemmas eval_standardize = standardize_unfold finish_def gapField_def js_sort_def cmpFrom_def
  Let_def

theorem standardizeBitfieldFields_no_empty_gap_witness:
  "map (\<lambda>e. (f_kind e, f_from e, f_to e, f_width e))
     (standardizeBitfieldFields [field_a, field_b] 32)
     = [(''var'', 31, 20, 12), (''var'', 25, 10, 16), (''gap'', 9, 0, 10)]
   \<and> overlap field_a field_b"
  using standardizeBitfieldFields_no_empty_gap [of "[field_a, field_b]" 32]
  by (simp add: eval_standardize field_a_def field_b_def overlap_def)


lemma cmpFrom_le: "cmpFrom a b \<le> 0 \<longleftrightarrow> f_from b \<le> f_from a"
  by (simp add: cmpFrom_def)

lemma js_sort_cmpFrom_sorted:
  "sorted_wrt (\<lambda>a b. f_from b \<le> f_from a) (js_sort cmpFrom xs)"
proof -
  have "sorted_wrt (\<lambda>a b. cmpFrom a b \<le> 0) (js_sort cmpFrom xs)"
    by (rule js_sort_sorted) (auto simp: cmpFrom_le)
  then show ?thesis by (simp add: cmpFrom_le)
qed

lemma js_sort_id:
  "sorted_wrt (\<lambda>a b. cmp a b \<le> 0) xs \<Longrightarrow> js_sort cmp xs = xs"
proof (induction xs)
  case Nil
  show ?case by (simp add: js_sort_Nil)
next
  case (Cons x xs)
  then have "js_sort cmp (x # xs) = js_insort cmp x xs"
    by (simp add: js_sort_Cons)
  also have "\<dots> = x # xs"
    using Cons.prems by (cases xs) simp_all
  finally show ?case .
qed

lemma overlap_sym: "overlap a b \<longleftrightarrow> overlap b a"
  by (auto simp: overlap_def)

lemma nonOverlapping_insort:
  "nonOverlapping (js_insort cmp x xs) = nonOverlapping (x # xs)"
  by (induction xs) (auto simp: list_all_iff js_insort_set overlap_sym)

lemma nonOverlapping_sort: "nonOverlapping (js_sort cmp xs) = nonOverlapping xs"
proof (induction xs)
  case Nil
  show ?case by (simp add: js_sort_Nil)
next
  case (Cons x xs)
  then show ?case
    by (simp add: js_sort_Cons nonOverlapping_insort js_sort_set list_all_iff)
qed

lemma fillGaps_append:
  "fillGaps segs filled nextBit =
     (filled @ fst (fillGaps segs [] nextBit), snd (fillGaps segs [] nextBit))"
proof (induction segs arbitrary: filled nextBit)
  case Nil
  show ?case by simp
next
  case (Cons seg segs)
  show ?case
    by (simp add: Let_def Cons [of "filled @ xs" for xs] Cons [of "x # xs" for x xs]
        Cons [of "[x]" for x])
qed

lemma finish_fillGaps_Cons:
  "finish (fillGaps (seg # segs) [] nextBit) =
     (if nextBit > f_from seg then [gapField nextBit (f_from seg + 1) (nextBit - f_from seg)]
      else [])
     @ seg # finish (fillGaps segs [] (f_to seg - 1))"
  by (simp add: Let_def finish_def fillGaps_append [of segs "x # xs" for x xs]
      fillGaps_append [of segs "[x]" for x] split: prod.splits)

lemma chain_bound: "chain c es \<Longrightarrow> - 1 \<le> c"
proof (induction es arbitrary: c)
  case Nil
  then show ?case by simp
next
  case (Cons x es)
  from Cons.prems have "chain (f_to x - 1) es" by simp
  then have "- 1 \<le> f_to x - 1" by (rule Cons.IH)
  with Cons.prems show ?case by simp
qed

lemma fill_chain:
  assumes "sorted_wrt (\<lambda>a b. f_from b \<le> f_from a) segs"
    and "nonOverlapping segs"
    and "list_all sized segs"
    and "list_all (\<lambda>e. 0 \<le> f_to e \<and> f_from e \<le> nextBit) segs"
    and "- 1 \<le> nextBit"
  shows "chain nextBit (finish (fillGaps segs [] nextBit))"
  using assms
proof (induction segs arbitrary: nextBit)
  case Nil
  then show ?case by (simp add: finish_def gapField_def)
next
  case (Cons seg segs)
  from Cons.prems have seg: "f_to seg \<le> f_from seg" "0 \<le> f_to seg" "f_from seg \<le> nextBit"
    "f_width seg = f_from seg - f_to seg + 1"
    by (simp_all add: sized_def)
  have below: "list_all (\<lambda>e. 0 \<le> f_to e \<and> f_from e \<le> f_to seg - 1) segs"
    unfolding list_all_iff
  proof
    fix e assume e: "e \<in> set segs"
    with Cons.prems have "f_from e \<le> f_from seg" "\<not> overlap seg e" "sized e" "0 \<le> f_to e"
      by (auto simp: list_all_iff)
    then show "0 \<le> f_to e \<and> f_from e \<le> f_to seg - 1"
      by (auto simp: overlap_def sized_def)
  qed
  have rest: "chain (f_to seg - 1) (finish (fillGaps segs [] (f_to seg - 1)))"
    using Cons.prems seg below by (intro Cons.IH) simp_all
  show ?case
    unfolding finish_fillGaps_Cons using seg rest by (simp add: gapField_def)
qed

lemma chain_upper: "chain c es \<Longrightarrow> e \<in> set es \<Longrightarrow> f_from e \<le> c"
proof (induction es arbitrary: c)
  case Nil
  then show ?case by simp
next
  case (Cons x es)
  then show ?case by (cases "e = x") force+
qed

lemma chain_sorted: "chain c es \<Longrightarrow> sorted_wrt (\<lambda>a b. f_from b < f_from a) es"
proof (induction es arbitrary: c)
  case Nil
  show ?case by simp
next
  case (Cons x es)
  from Cons.prems have tl: "chain (f_to x - 1) es" by simp
  then have "\<forall>e\<in>set es. f_from e \<le> f_to x - 1"
    using chain_upper by blast
  with Cons.prems Cons.IH [OF tl] show ?case by force
qed

lemma chain_nonOverlapping: "chain c es \<Longrightarrow> nonOverlapping es"
proof (induction es arbitrary: c)
  case Nil
  show ?case by simp
next
  case (Cons x es)
  from Cons.prems have tl: "chain (f_to x - 1) es" by simp
  then have "\<forall>e\<in>set es. f_from e \<le> f_to x - 1"
    using chain_upper by blast
  with Cons.IH [OF tl] show ?case by (force simp: list_all_iff overlap_def)
qed

lemma chain_widths: "chain c es \<Longrightarrow> sum_list (map f_width es) = c + 1"
  by (induction es arbitrary: c) auto

lemma chain_union: "chain c es \<Longrightarrow> (\<Union>e\<in>set es. {f_to e..f_from e}) = {0..c}"
proof (induction es arbitrary: c)
  case Nil
  then show ?case by simp
next
  case (Cons x es)
  from Cons.prems have tl: "chain (f_to x - 1) es" by simp
  have "(\<Union>e\<in>set es. {f_to e..f_from e}) = {0..f_to x - 1}"
    by (rule Cons.IH [OF tl])
  moreover have "- 1 \<le> f_to x - 1"
    by (rule chain_bound [OF tl])
  ultimately show ?case
    using Cons.prems by auto
qed

lemma chain_adjacent:
  "chain c es \<Longrightarrow> Suc i < length es \<Longrightarrow> f_to (es ! i) = f_from (es ! Suc i) + 1"
proof (induction es arbitrary: c i)
  case Nil
  then show ?case by simp
next
  case (Cons x es)
  show ?case
  proof (cases i)
    case 0
    with Cons.prems show ?thesis by (cases es) auto
  next
    case (Suc j)
    with Cons show ?thesis by auto
  qed
qed

lemma chain_hd: "chain c es \<Longrightarrow> es \<noteq> [] \<Longrightarrow> f_from (hd es) = c"
  by (cases es) auto

lemma chain_last: "chain c es \<Longrightarrow> es \<noteq> [] \<Longrightarrow> f_to (last es) = 0"
  by (induction es arbitrary: c) (auto split: if_splits)

lemma chain_ranges: "chain c es \<Longrightarrow> e \<in> set es \<Longrightarrow> f_to e \<le> f_from e"
  by (induction es arbitrary: c) auto

lemma standardize_chain:
  assumes "nonOverlapping (expandFields flds [])"
    and "withinWord W (expandFields flds [])"
    and "0 \<le> W"
  shows "chain (W - 1) (standardizeBitfieldFields flds W)"
proof -
  let ?E = "js_sort cmpFrom (expandFields flds [])"
  have "list_all sized ?E"
    by (simp add: js_sort_list_all expandFields_sized)
  moreover have "list_all (\<lambda>e. 0 \<le> f_to e \<and> f_from e \<le> W - 1) ?E"
    using assms(2) by (simp add: js_sort_list_all withinWord_def)
  moreover have "nonOverlapping ?E"
    using assms(1) by (simp add: nonOverlapping_sort)
  ultimately have c: "chain (W - 1) (finish (fillGaps ?E [] (W - 1)))"
    using js_sort_cmpFrom_sorted [of "expandFields flds []"] assms(3)
    by (intro fill_chain) simp_all
  then have "sorted_wrt (\<lambda>a b. cmpFrom a b \<le> 0) (finish (fillGaps ?E [] (W - 1)))"
    using chain_sorted [OF c] by (auto simp: cmpFrom_le elim: sorted_wrt_mono_rel [rotated])
  then show ?thesis
    unfolding standardize_unfold using c by (simp add: js_sort_id)
qed

lemmas eval_expand = nonOverlapping.simps withinWord_def overlap_def Let_def

text \<open>
  Claim C1 as stated asks only that the expanded segments do not overlap. A segment
  above the word, here \<open>[40, 35]\<close> in a word of 32 bits, overlaps nothing, and the first
  entry of the result then has \<open>from = 40\<close>, not 31.
\<close>

theorem standardizeBitfieldFields_out_of_word:
  "nonOverlapping (expandFields [field_high] [])
   \<and> f_from (hd (standardizeBitfieldFields [field_high] 32)) = 40
   \<and> f_from (hd (standardizeBitfieldFields [field_high] 32)) \<noteq> 32 - 1"
  by (simp add: eval_standardize eval_expand field_high_def)

text \<open>
  Claim C1, amended: for every field list whose expanded segments are pairwise
  non-overlapping and lie within \<open>[0, W-1]\<close>, and every width \<open>W\<close> of 16 or 32, the list
  returned by \<^verbatim>\<open>standardizeBitfieldFields\<close> partitions \<open>[0, W-1]\<close>: it is sorted
  descending by \<open>from\<close>, the first entry's \<open>from\<close> is \<open>W-1\<close>, each entry's \<open>to\<close> is the
  next entry's \<open>from + 1\<close>, the last entry's \<open>to\<close> is 0; no range is empty, the ranges are
  pairwise non-overlapping and their union is \<open>[0, W-1]\<close>.
\<close>

theorem standardizeBitfieldFields_partition:
  assumes "W = 16 \<or> W = 32"
    and "nonOverlapping (expandFields flds [])"
    and "withinWord W (expandFields flds [])"
  shows "standardizeBitfieldFields flds W \<noteq> []
       \<and> f_from (hd (standardizeBitfieldFields flds W)) = W - 1
       \<and> f_to (last (standardizeBitfieldFields flds W)) = 0
       \<and> (\<forall>i. Suc i < length (standardizeBitfieldFields flds W) \<longrightarrow>
             f_to (standardizeBitfieldFields flds W ! i)
               = f_from (standardizeBitfieldFields flds W ! Suc i) + 1)
       \<and> sorted_wrt (\<lambda>a b. f_from b < f_from a) (standardizeBitfieldFields flds W)
       \<and> (\<forall>e \<in> set (standardizeBitfieldFields flds W). f_to e \<le> f_from e)
       \<and> nonOverlapping (standardizeBitfieldFields flds W)
       \<and> (\<Union>e \<in> set (standardizeBitfieldFields flds W). {f_to e..f_from e}) = {0..W - 1}"
proof -
  from assms(1) have W: "0 \<le> W" by auto
  have c: "chain (W - 1) (standardizeBitfieldFields flds W)"
    by (rule standardize_chain [OF assms(2) assms(3) W])
  have ne: "standardizeBitfieldFields flds W \<noteq> []"
    using c assms(1) by auto
  show ?thesis
    using ne chain_hd [OF c ne] chain_last [OF c ne] chain_adjacent [OF c] chain_sorted [OF c]
      chain_ranges [OF c] chain_nonOverlapping [OF c] chain_union [OF c]
    by blast
qed

theorem standardizeBitfieldFields_partition_witness:
  "map (\<lambda>e. (f_label e, f_from e, f_to e)) (standardizeBitfieldFields [field_imm, field_opcode] 32)
     = [(''imm'', 31, 25), ([], 24, 12), (''imm'', 11, 7), (''opcode=0100011'', 6, 0)]
   \<and> nonOverlapping (expandFields [field_imm, field_opcode] [])
   \<and> withinWord 32 (expandFields [field_imm, field_opcode] [])
   \<and> f_from (hd (standardizeBitfieldFields [field_imm, field_opcode] 32)) = 31
   \<and> f_to (last (standardizeBitfieldFields [field_imm, field_opcode] 32)) = 0"
  using standardizeBitfieldFields_partition [of 32 "[field_imm, field_opcode]"]
  by (simp add: eval_standardize eval_expand field_imm_def field_opcode_def)

text \<open>
  Claim C2 as stated is about every field list. With two overlapping segments,
  \<open>[31, 20]\<close> and \<open>[25, 10]\<close>, the widths of the result add up to 38 in a word of 32
  bits; with the single segment \<open>[40, 35]\<close> above the word they add up to 41.
\<close>

theorem standardizeBitfieldFields_overlap_sum:
  "sum_list (map f_width (standardizeBitfieldFields [field_a, field_b] 32)) = 38
   \<and> sum_list (map f_width (standardizeBitfieldFields [field_a, field_b] 32)) \<noteq> 32
   \<and> sum_list (map f_width (standardizeBitfieldFields [field_high] 32)) = 41"
  by (simp add: eval_standardize field_a_def field_b_def field_high_def)

text \<open>
  Claim C2, amended: for every field list whose expanded segments are pairwise
  non-overlapping and lie within \<open>[0, W-1]\<close>, and every width \<open>W\<close> of 16 or 32, the widths
  of all entries returned by \<^verbatim>\<open>standardizeBitfieldFields\<close> (constants, variables and gaps)
  add up to \<open>W\<close>.
\<close>

theorem standardizeBitfieldFields_width_sum:
  assumes "W = 16 \<or> W = 32"
    and "nonOverlapping (expandFields flds [])"
    and "withinWord W (expandFields flds [])"
  shows "sum_list (map f_width (standardizeBitfieldFields flds W)) = W"
proof -
  from assms(1) have "0 \<le> W" by auto
  then have "chain (W - 1) (standardizeBitfieldFields flds W)"
    by (rule standardize_chain [OF assms(2) assms(3)])
  then show ?thesis
    by (simp add: chain_widths)
qed

theorem standardizeBitfieldFields_width_sum_witness:
  "sum_list (map f_width (standardizeBitfieldFields [field_c16] 16)) = 16
   \<and> map f_width (standardizeBitfieldFields [field_c16] 16) = [3, 13]
   \<and> nonOverlapping (expandFields [field_c16] [])
   \<and> withinWord 16 (expandFields [field_c16] [])
   \<and> sum_list (map f_width (standardizeBitfieldFields [field_imm, field_opcode] 32)) = 32"
  using standardizeBitfieldFields_width_sum [of 16 "[field_c16]"]
    standardizeBitfieldFields_width_sum [of 32 "[field_imm, field_opcode]"]
  by (simp add: eval_standardize eval_expand field_c16_def field_imm_def field_opcode_def)

subsection \<open>FieldResolver: the constant fields\<close>

lemma scanRun_fix: "(0 \<le> bitn \<longrightarrow> symbolAt m bitn = Some ''-'') \<Longrightarrow> scanRun m bitn = bitn"
  by (subst scanRun.simps) auto

lemma scanRun_step:
  "0 \<le> bitn \<Longrightarrow> symbolAt m bitn \<noteq> Some ''-'' \<Longrightarrow> scanRun m bitn = scanRun m (bitn - 1)"
  by (subst scanRun.simps) simp

lemma scanRun_le: "scanRun m bitn \<le> bitn"
proof (induction m bitn rule: scanRun.induct)
  case (1 m bitn)
  show ?case
  proof (cases "0 \<le> bitn \<and> symbolAt m bitn \<noteq> Some ''-''")
    case True
    with 1 show ?thesis by (simp add: scanRun_step)
  next
    case False
    then show ?thesis by (simp add: scanRun_fix)
  qed
qed

lemma scanRun_lower: "- 1 \<le> bitn \<Longrightarrow> - 1 \<le> scanRun m bitn"
proof (induction m bitn rule: scanRun.induct)
  case (1 m bitn)
  show ?case
  proof (cases "0 \<le> bitn \<and> symbolAt m bitn \<noteq> Some ''-''")
    case True
    with 1 show ?thesis by (simp add: scanRun_step)
  next
    case False
    with 1 show ?thesis by (simp add: scanRun_fix)
  qed
qed

lemma scanRun_stop: "0 \<le> scanRun m bitn \<Longrightarrow> symbolAt m (scanRun m bitn) = Some ''-''"
proof (induction m bitn rule: scanRun.induct)
  case (1 m bitn)
  show ?case
  proof (cases "0 \<le> bitn \<and> symbolAt m bitn \<noteq> Some ''-''")
    case True
    with 1 show ?thesis by (simp add: scanRun_step)
  next
    case False
    with 1 show ?thesis by (auto simp: scanRun_fix)
  qed
qed

lemma scanRun_between:
  "scanRun m bitn < k \<Longrightarrow> k \<le> bitn \<Longrightarrow> 0 \<le> k \<and> symbolAt m k \<noteq> Some ''-''"
proof (induction m bitn rule: scanRun.induct)
  case (1 m bitn)
  show ?case
  proof (cases "0 \<le> bitn \<and> symbolAt m bitn \<noteq> Some ''-''")
    case True
    show ?thesis
    proof (cases "k = bitn")
      case True
      with \<open>0 \<le> bitn \<and> symbolAt m bitn \<noteq> Some ''-''\<close> show ?thesis by simp
    next
      case False
      with 1 True show ?thesis by (simp add: scanRun_step)
    qed
  next
    case False
    with 1 show ?thesis by (simp add: scanRun_fix)
  qed
qed

lemma sym_isConst:
  "0 \<le> b \<Longrightarrow> b < int (length m) \<Longrightarrow> isConst m b \<longleftrightarrow> symbolAt m b \<noteq> Some ''-''"
  by (auto simp: isConst_def symbolAt_def Let_def)

lemma constLoop_rec:
  "constLoop m bitn flds =
     (if bitn < 0 then flds
      else if symbolAt m bitn = Some ''-'' then constLoop m (bitn - 1) flds
      else constLoop m (scanRun m bitn) (flds @ [constField m bitn (scanRun m bitn + 1)]))"
proof (cases "bitn < 0")
  case True
  then show ?thesis by (subst constLoop.simps) simp
next
  case False
  show ?thesis
  proof (cases "symbolAt m bitn = Some ''-''")
    case True
    with False show ?thesis
      by (subst constLoop.simps) (simp add: scanRun_fix)
  next
    case dash: False
    with False have "scanRun m bitn < bitn"
      using scanRun_le [of m "bitn - 1"] by (simp add: scanRun_step)
    with False dash show ?thesis
      by (subst constLoop.simps) simp
  qed
qed

lemma constLoop_append: "constLoop m bitn flds = flds @ constLoop m bitn []"
proof (induction "nat (bitn + 1)" arbitrary: bitn flds rule: less_induct)
  case less
  show ?case
  proof (cases "bitn < 0")
    case True
    then show ?thesis by (simp add: constLoop_rec)
  next
    case False
    show ?thesis
    proof (cases "symbolAt m bitn = Some ''-''")
      case True
      have "constLoop m (bitn - 1) flds = flds @ constLoop m (bitn - 1) []"
        using False by (intro less) simp
      with False True show ?thesis
        by (simp add: constLoop_rec [of m bitn])
    next
      case dash: False
      with False have lt: "scanRun m bitn < bitn"
        using scanRun_le [of m "bitn - 1"] by (simp add: scanRun_step)
      have "constLoop m (scanRun m bitn) xs = xs @ constLoop m (scanRun m bitn) []" for xs
        using False lt by (intro less) simp
      from this [of "flds @ [x]" for x] this [of "[x]" for x] False dash show ?thesis
        by (simp add: constLoop_rec [of m bitn])
    qed
  qed
qed

lemma constLoop_Nil_rec:
  "constLoop m bitn [] =
     (if bitn < 0 then []
      else if symbolAt m bitn = Some ''-'' then constLoop m (bitn - 1) []
      else constField m bitn (scanRun m bitn + 1) # constLoop m (scanRun m bitn) [])"
  using constLoop_append [of m "scanRun m bitn" "[constField m bitn (scanRun m bitn + 1)]"]
  by (simp add: constLoop_rec [of m bitn "[]"])

lemma constField_sel:
  "f_from (constField m hi lo) = hi" "f_to (constField m hi lo) = lo"
  "f_width (constField m hi lo) = hi - lo + 1" "f_kind (constField m hi lo) = ''const''"
  "f_segments (constField m hi lo) = None"
  by (simp_all add: constField_def Let_def)

lemma maximalRun_top: "maximalRun m hi lo \<Longrightarrow> isConst m hi"
  by (auto simp: maximalRun_def)

lemma constLoop_runs:
  assumes "- 1 \<le> b" and "b < int (length m)" and "\<not> (isConst m b \<and> isConst m (b + 1))"
  shows "(\<forall>f \<in> set (constLoop m b []).
            \<exists>hi lo. f = constField m hi lo \<and> maximalRun m hi lo \<and> hi \<le> b)
       \<and> (\<forall>hi lo. maximalRun m hi lo \<and> hi \<le> b \<longrightarrow> constField m hi lo \<in> set (constLoop m b []))
       \<and> sorted_wrt (\<lambda>a c. f_from c < f_from a) (constLoop m b [])"
  using assms
proof (induction "nat (b + 1)" arbitrary: b rule: less_induct)
  case less
  consider (neg) "b < 0" | (dash) "0 \<le> b" "symbolAt m b = Some ''-''"
    | (run) "0 \<le> b" "symbolAt m b \<noteq> Some ''-''"
    by fastforce
  then show ?case
  proof cases
    case neg
    have "\<not> (maximalRun m hi lo \<and> hi \<le> b)" for hi lo
      using neg maximalRun_top [of m hi lo] by (auto simp: isConst_def)
    with neg show ?thesis
      by (simp add: constLoop_Nil_rec [of m b])
  next
    case dash
    with less.prems have nb: "\<not> isConst m b"
      by (simp add: sym_isConst)
    have eq: "constLoop m b [] = constLoop m (b - 1) []"
      using dash by (simp add: constLoop_Nil_rec [of m b])
    have IH: "(\<forall>f \<in> set (constLoop m (b - 1) []).
            \<exists>hi lo. f = constField m hi lo \<and> maximalRun m hi lo \<and> hi \<le> b - 1)
       \<and> (\<forall>hi lo. maximalRun m hi lo \<and> hi \<le> b - 1 \<longrightarrow>
             constField m hi lo \<in> set (constLoop m (b - 1) []))
       \<and> sorted_wrt (\<lambda>a c. f_from c < f_from a) (constLoop m (b - 1) [])"
      using dash less.prems nb by (intro less.hyps) simp_all
    have "hi \<le> b - 1" if "maximalRun m hi lo" "hi \<le> b" for hi lo
      using that nb maximalRun_top [of m hi lo] by (cases "hi = b") auto
    with IH show ?thesis
      unfolding eq by fastforce
  next
    case run
    define s where "s = scanRun m b"
    have sb: "s < b"
      unfolding s_def using run scanRun_le [of m "b - 1"] by (simp add: scanRun_step)
    have s1: "- 1 \<le> s"
      unfolding s_def using less.prems(1) by (rule scanRun_lower)
    have ns: "\<not> isConst m s"
    proof (cases "0 \<le> s")
      case True
      then have "symbolAt m s = Some ''-''"
        unfolding s_def by (rule scanRun_stop)
      with True sb less.prems show ?thesis by (simp add: sym_isConst)
    next
      case False
      then show ?thesis by (simp add: isConst_def)
    qed
    have inrun: "isConst m k" if "s < k" "k \<le> b" for k
    proof -
      from that have "0 \<le> k \<and> symbolAt m k \<noteq> Some ''-''"
        unfolding s_def by (rule scanRun_between)
      with that less.prems show ?thesis by (simp add: sym_isConst)
    qed
    from run sb have cb: "isConst m b" by (intro inrun) simp_all
    with less.prems have nb1: "\<not> isConst m (b + 1)" by simp
    have head: "maximalRun m b (s + 1)"
      using sb inrun nb1 ns by (auto simp: maximalRun_def)
    have eq: "constLoop m b [] = constField m b (s + 1) # constLoop m s []"
      using run by (simp add: constLoop_Nil_rec [of m b] s_def)
    have IH: "(\<forall>f \<in> set (constLoop m s []).
            \<exists>hi lo. f = constField m hi lo \<and> maximalRun m hi lo \<and> hi \<le> s)
       \<and> (\<forall>hi lo. maximalRun m hi lo \<and> hi \<le> s \<longrightarrow> constField m hi lo \<in> set (constLoop m s []))
       \<and> sorted_wrt (\<lambda>a c. f_from c < f_from a) (constLoop m s [])"
      using sb s1 less.prems ns by (intro less.hyps) simp_all
    have comp: "(hi = b \<and> lo = s + 1) \<or> hi \<le> s" if mr: "maximalRun m hi lo" and "hi \<le> b" for hi lo
    proof (cases "hi = b")
      case True
      have "lo = s + 1"
      proof (rule ccontr)
        assume "lo \<noteq> s + 1"
        then consider "s + 1 < lo" | "lo \<le> s" by linarith
        then show False
        proof cases
          case 1
          with mr True have "isConst m (lo - 1)"
            by (intro inrun) (auto simp: maximalRun_def)
          with mr show False by (simp add: maximalRun_def)
        next
          case 2
          with mr True sb have "isConst m s"
            by (auto simp: maximalRun_def)
          with ns show False ..
        qed
      qed
      with True show ?thesis by simp
    next
      case False
      have "hi \<le> s"
      proof (rule ccontr)
        assume "\<not> hi \<le> s"
        with False \<open>hi \<le> b\<close> have "isConst m (hi + 1)"
          by (intro inrun) simp_all
        with mr show False by (simp add: maximalRun_def)
      qed
      then show ?thesis ..
    qed
    have i: "\<forall>f \<in> set (constLoop m b []).
            \<exists>hi lo. f = constField m hi lo \<and> maximalRun m hi lo \<and> hi \<le> b"
      unfolding eq using head IH sb by fastforce
    have ii: "\<forall>hi lo. maximalRun m hi lo \<and> hi \<le> b \<longrightarrow> constField m hi lo \<in> set (constLoop m b [])"
      unfolding eq using comp IH by fastforce
    have "\<forall>f \<in> set (constLoop m s []). f_from f < b"
      using IH sb by (fastforce simp: constField_sel)
    then have iii: "sorted_wrt (\<lambda>a c. f_from c < f_from a) (constLoop m b [])"
      unfolding eq using IH by (simp add: constField_sel)
    from i ii iii show ?thesis by blast
  qed
qed

lemma span_constField: "span (constField m hi lo) = (hi, lo)"
  by (simp add: span_def constField_sel)

lemma strictly_descending_distinct:
  "sorted_wrt (\<lambda>a c. f_from c < f_from a) xs \<Longrightarrow> distinct (map span xs)"
  by (induction xs) (auto simp: span_def)

lemma constFields_runs:
  "distinct (map span (constFields m))
   \<and> set (map span (constFields m)) = {(hi, lo). maximalRun m hi lo}
   \<and> (\<forall>f \<in> set (constFields m).
         f = constField m (f_from f) (f_to f) \<and> maximalRun m (f_from f) (f_to f))"
proof -
  let ?b = "int (length m) - 1"
  have "\<not> isConst m (?b + 1)" by (simp add: isConst_def)
  then have inv: "(\<forall>f \<in> set (constLoop m ?b []).
            \<exists>hi lo. f = constField m hi lo \<and> maximalRun m hi lo \<and> hi \<le> ?b)
       \<and> (\<forall>hi lo. maximalRun m hi lo \<and> hi \<le> ?b \<longrightarrow> constField m hi lo \<in> set (constLoop m ?b []))
       \<and> sorted_wrt (\<lambda>a c. f_from c < f_from a) (constLoop m ?b [])"
    by (intro constLoop_runs) simp_all
  have top: "hi \<le> ?b" if "maximalRun m hi lo" for hi lo
    using maximalRun_top [OF that] by (simp add: isConst_def)
  have fields: "\<forall>f \<in> set (constFields m).
         f = constField m (f_from f) (f_to f) \<and> maximalRun m (f_from f) (f_to f)"
    unfolding constFields_def using inv by (fastforce simp: constField_sel)
  have "set (map span (constFields m)) = {(hi, lo). maximalRun m hi lo}"
  proof (intro set_eqI iffI)
    fix p assume "p \<in> set (map span (constFields m))"
    then obtain f where "f \<in> set (constFields m)" "p = span f" by auto
    with fields show "p \<in> {(hi, lo). maximalRun m hi lo}"
      by (auto simp: span_def)
  next
    fix p assume "p \<in> {(hi, lo). maximalRun m hi lo}"
    then obtain hi lo where p: "p = (hi, lo)" "maximalRun m hi lo" by auto
    with inv top have "constField m hi lo \<in> set (constFields m)"
      unfolding constFields_def by blast
    then have "span (constField m hi lo) \<in> set (map span (constFields m))"
      by simp
    with p show "p \<in> set (map span (constFields m))"
      by (simp add: span_constField)
  qed
  moreover have "distinct (map span (constFields m))"
  proof -
    from inv have "sorted_wrt (\<lambda>a c. f_from c < f_from a) (constFields m)"
      by (simp add: constFields_def)
    then show ?thesis by (rule strictly_descending_distinct)
  qed
  ultimately show ?thesis using fields by blast
qed

lemma slice_bitsOf:
  assumes "0 \<le> lo" and "lo \<le> hi" and "hi < int (length m)"
  shows "js_slice m (int (length m) - 1 - hi) (int (length m) - lo)
           = map (\<lambda>b. m ! nat (int (length m) - 1 - b)) (rev [lo..hi])"
proof (rule nth_equalityI)
  let ?n = "int (length m)"
  have sl: "js_slice m (?n - 1 - hi) (?n - lo) = take (nat (1 + hi - lo)) (drop (nat (?n - 1 - hi)) m)"
    using assms by (simp add: js_slice_def Let_def min_def)
  show len: "length (js_slice m (?n - 1 - hi) (?n - lo))
      = length (map (\<lambda>b. m ! nat (?n - 1 - b)) (rev [lo..hi]))"
    unfolding sl using assms by (simp add: min_def) linarith
  fix i assume "i < length (js_slice m (?n - 1 - hi) (?n - lo))"
  with len have i: "int i < hi - lo + 1" by simp
  then have "rev [lo..hi] ! i = hi - int i"
    using assms by (simp add: rev_nth nth_upto)
  moreover have "js_slice m (?n - 1 - hi) (?n - lo) ! i = m ! (nat (?n - 1 - hi) + i)"
    unfolding sl using i assms by simp
  moreover have "nat (?n - 1 - hi) + i = nat (?n - 1 - (hi - int i))"
    using i assms by linarith
  ultimately show "js_slice m (?n - 1 - hi) (?n - lo) ! i
      = map (\<lambda>b. m ! nat (?n - 1 - b)) (rev [lo..hi]) ! i"
    using i assms by simp
qed

lemma constLabel_role: "constLabel hi lo bits = roleOf hi lo @ ''='' @ bits"
  by (simp add: constLabel_def roleOf_def)

lemma constField_label:
  assumes "maximalRun m hi lo"
  shows "f_label (constField m hi lo) = roleOf hi lo @ ''='' @ bitsOf m hi lo"
proof -
  from assms have "0 \<le> lo" "lo \<le> hi" "hi < int (length m)"
    by (auto simp: maximalRun_def isConst_def)
  then show ?thesis
    by (simp add: constField_def Let_def constLabel_role bitsOf_def slice_bitsOf)
qed

lemma varLoop_kind: "\<forall>f \<in> set flds. f_kind f = ''var'' \<Longrightarrow> \<forall>f \<in> set (varLoop vars flds). f_kind f = ''var''"
proof (induction vars arbitrary: flds)
  case Nil
  then show ?case by simp
next
  case (Cons v vars)
  show ?case
  proof (cases "parseLocationSegments (v_location v)")
    case Nil
    with Cons show ?thesis by simp
  next
    case (Cons s ss)
    show ?thesis
      unfolding varLoop.simps Let_def Cons list.case
      by (rule Cons.IH) (use Cons.prems in auto)
  qed
qed

lemma constFields_kind: "f \<in> set (constFields m) \<Longrightarrow> f_kind f = ''const''"
  using constFields_runs [of m] constField_sel(4) by metis

lemma computeFields_mset:
  assumes "d_encoding doc = Some enc"
  shows "mset (computeFields doc) =
           mset (varLoop (case se_variables (chooseEncoding enc) of None \<Rightarrow> [] | Some vs \<Rightarrow> vs) [])
           + (case parseMatchBits (case se_match (chooseEncoding enc) of None \<Rightarrow> [] | Some s \<Rightarrow> s) of
                None \<Rightarrow> {#} | Some m \<Rightarrow> mset (constFields m))"
  using assms
  by (simp add: computeFields_def Let_def js_sort_mset constFields_def
      constLoop_append [of _ _ "varLoop vs []" for vs] split: option.splits)

lemma computeFields_const_mset:
  assumes "d_encoding doc = Some enc"
    and "se_match (chooseEncoding enc) = Some s"
    and "parseMatchBits s = Some m"
  shows "filter_mset (\<lambda>f. f_kind f = ''const'') (mset (computeFields doc)) = mset (constFields m)"
proof -
  let ?vs = "varLoop (case se_variables (chooseEncoding enc) of None \<Rightarrow> [] | Some vs \<Rightarrow> vs) []"
  have "\<forall>f \<in> set ?vs. f_kind f = ''var''"
    by (rule varLoop_kind) simp
  then have "filter_mset (\<lambda>f. f_kind f = ''const'') (mset ?vs) = {#}"
    by simp
  moreover have "filter_mset (\<lambda>f. f_kind f = ''const'') (mset (constFields m)) = mset (constFields m)"
    by (rule filter_mset_cong [where g = "\<lambda>f. True", simplified]) (simp_all add: constFields_kind)
  ultimately show ?thesis
    using assms by (simp add: computeFields_mset)
qed

lemma computeFields_var_mset:
  assumes "d_encoding doc = Some enc"
  shows "filter_mset (\<lambda>f. f_kind f = ''var'') (mset (computeFields doc))
       = mset (varLoop (case se_variables (chooseEncoding enc) of None \<Rightarrow> [] | Some vs \<Rightarrow> vs) [])"
proof -
  let ?vs = "varLoop (case se_variables (chooseEncoding enc) of None \<Rightarrow> [] | Some vs \<Rightarrow> vs) []"
  have "\<forall>f \<in> set ?vs. f_kind f = ''var''"
    by (rule varLoop_kind) simp
  then have v: "filter_mset (\<lambda>f. f_kind f = ''var'') (mset ?vs) = mset ?vs"
    by (intro filter_mset_cong [where g = "\<lambda>f. True", simplified]) simp_all
  have "filter_mset (\<lambda>f. f_kind f = ''var'') (mset (constFields m)) = {#}" for m
    by (simp add: constFields_kind)
  with v show ?thesis
    using assms by (simp add: computeFields_mset split: option.splits)
qed

lemma constFields_lib_32:
  assumes "length s = 32"
  shows "constFields_lib (split_chars s) flds =
    flds
    @ (if all01 7 (drop 25 s)
       then [\<lparr>f_label = ''opcode='' @ drop 25 s, f_from = 6, f_to = 0, f_width = 7,
               f_kind = ''const'', f_segments = None\<rparr>] else [])
    @ (if all01 3 (take 3 (drop 17 s))
       then [\<lparr>f_label = ''funct3='' @ take 3 (drop 17 s), f_from = 14, f_to = 12, f_width = 3,
               f_kind = ''const'', f_segments = None\<rparr>] else [])
    @ (if all01 7 (take 7 s)
       then [\<lparr>f_label = ''funct7='' @ take 7 s, f_from = 31, f_to = 25, f_width = 7,
               f_kind = ''const'', f_segments = None\<rparr>] else [])"
proof -
  have "\<not> list_all (\<lambda>c. c = CHR ''-'') x" if "all01 7 x" for x
    using that by (cases x) (auto simp: all01_def)
  then show ?thesis
    using assms by (auto simp: constFields_lib_def sliceBits_32 Let_def)
qed

text \<open>
  Claim C7 as stated, read on \<^verbatim>\<open>computeFields\<close> of
  \<^verbatim>\<open>src/src/lib/loadInstructions.js\<close>: for the match of a shift the bits \<open>[31, 26]\<close> are
  a maximal run of constant symbols, and that copy pushes no field for them: its constants
  are the opcode and the funct3 only.
\<close>

theorem computeFields_lib_misses_run:
  "parseMatchBits_lib match_slli = Some (split_chars match_slli)
   \<and> maximalRun (split_chars match_slli) 31 26
   \<and> map span (constFields_lib (split_chars match_slli) []) = [(6, 0), (14, 12)]
   \<and> (31, 26) \<notin> set (map span (constFields_lib (split_chars match_slli) []))"
proof -
  have "maximalRun (split_chars match_slli) 31 26"
    by code_simp
  moreover have "map span (constFields_lib (split_chars match_slli) []) = [(6, 0), (14, 12)]"
    by code_simp
  moreover have "parseMatchBits_lib match_slli = Some (split_chars match_slli)"
    by (simp add: parseMatchBits_lib_def match_slli_def)
  ultimately show ?thesis by simp
qed

text \<open>
  Claim C7, amended: for every parsed match pattern, \<^verbatim>\<open>computeFields\<close> of \<^verbatim>\<open>part_000\<close>
  emits one field of kind \<^verbatim>\<open>const\<close> per maximal run of symbols other than the don't-care
  symbol, and no other: the spans of its constant fields are distinct and are exactly the
  maximal runs (so no field of width zero), each field has the width of its span and the
  label \<^verbatim>\<open><role>=<bits>\<close>, the role being \<^verbatim>\<open>funct7\<close> exactly for \<open>[31,25]\<close>, \<^verbatim>\<open>funct3\<close>
  exactly for \<open>[14,12]\<close>, \<^verbatim>\<open>opcode\<close> exactly for \<open>[6,0]\<close> and \<^verbatim>\<open>const\<close> otherwise. The copy
  in \<^verbatim>\<open>src/src/lib/loadInstructions.js\<close> pushes, for a match of 32 symbols, at most three
  constants, in this order: the opcode \<open>[6,0]\<close>, the funct3 \<open>[14,12]\<close> and the funct7
  \<open>[31,25]\<close>, each if and only if all symbols of its slice are \<^verbatim>\<open>0\<close> or \<^verbatim>\<open>1\<close>.
\<close>

theorem computeFields_constant_runs:
  assumes "d_encoding doc = Some enc"
    and "se_match (chooseEncoding enc) = Some s"
    and "parseMatchBits s = Some m"
  shows "filter_mset (\<lambda>f. f_kind f = ''const'') (mset (computeFields doc)) = mset (constFields m)
       \<and> distinct (map span (constFields m))
       \<and> set (map span (constFields m)) = {(hi, lo). maximalRun m hi lo}
       \<and> (\<forall>f \<in> set (constFields m).
             f_kind f = ''const'' \<and> f_width f = f_from f - f_to f + 1 \<and> 0 < f_width f
             \<and> f_label f = roleOf (f_from f) (f_to f) @ ''='' @ bitsOf m (f_from f) (f_to f))
       \<and> (length s = 32 \<longrightarrow>
            parseMatchBits_lib s = Some m
            \<and> constFields_lib m flds =
                flds
                @ (if all01 7 (drop 25 s)
                   then [\<lparr>f_label = ''opcode='' @ drop 25 s, f_from = 6, f_to = 0, f_width = 7,
                           f_kind = ''const'', f_segments = None\<rparr>] else [])
                @ (if all01 3 (take 3 (drop 17 s))
                   then [\<lparr>f_label = ''funct3='' @ take 3 (drop 17 s), f_from = 14, f_to = 12,
                           f_width = 3, f_kind = ''const'', f_segments = None\<rparr>] else [])
                @ (if all01 7 (take 7 s)
                   then [\<lparr>f_label = ''funct7='' @ take 7 s, f_from = 31, f_to = 25,
                           f_width = 7, f_kind = ''const'', f_segments = None\<rparr>] else []))"
proof -
  have fields: "f_kind f = ''const'' \<and> f_width f = f_from f - f_to f + 1 \<and> 0 < f_width f
      \<and> f_label f = roleOf (f_from f) (f_to f) @ ''='' @ bitsOf m (f_from f) (f_to f)"
    if "f \<in> set (constFields m)" for f
  proof -
    from that constFields_runs [of m]
    have f: "f = constField m (f_from f) (f_to f)" and mr: "maximalRun m (f_from f) (f_to f)"
      by blast+
    from mr have "f_to f \<le> f_from f" by (simp add: maximalRun_def)
    moreover have "f_width f = f_from f - f_to f + 1" and "f_kind f = ''const''"
      by (subst f, simp add: constField_sel)+
    moreover have "f_label f = roleOf (f_from f) (f_to f) @ ''='' @ bitsOf m (f_from f) (f_to f)"
      by (subst f) (rule constField_label [OF mr])
    ultimately show ?thesis by simp
  qed
  have m: "m = split_chars s"
    using assms(3) by (auto simp: parseMatchBits_def split: if_splits)
  have lib: "parseMatchBits_lib s = Some m" if "length s = 32"
    using that m by (auto simp: parseMatchBits_lib_def)
  have c1: "filter_mset (\<lambda>f. f_kind f = ''const'') (mset (computeFields doc)) = mset (constFields m)"
    by (rule computeFields_const_mset [OF assms])
  have c2: "distinct (map span (constFields m))"
    and c3: "set (map span (constFields m)) = {(hi, lo). maximalRun m hi lo}"
    using constFields_runs [of m] by blast+
  have c4: "\<forall>f \<in> set (constFields m).
             f_kind f = ''const'' \<and> f_width f = f_from f - f_to f + 1 \<and> 0 < f_width f
             \<and> f_label f = roleOf (f_from f) (f_to f) @ ''='' @ bitsOf m (f_from f) (f_to f)"
    using fields by blast
  have c5: "parseMatchBits_lib s = Some m
            \<and> constFields_lib m flds =
                flds
                @ (if all01 7 (drop 25 s)
                   then [\<lparr>f_label = ''opcode='' @ drop 25 s, f_from = 6, f_to = 0, f_width = 7,
                           f_kind = ''const'', f_segments = None\<rparr>] else [])
                @ (if all01 3 (take 3 (drop 17 s))
                   then [\<lparr>f_label = ''funct3='' @ take 3 (drop 17 s), f_from = 14, f_to = 12,
                           f_width = 3, f_kind = ''const'', f_segments = None\<rparr>] else [])
                @ (if all01 7 (take 7 s)
                   then [\<lparr>f_label = ''funct7='' @ take 7 s, f_from = 31, f_to = 25,
                           f_width = 7, f_kind = ''const'', f_segments = None\<rparr>] else [])"
    if "length s = 32"
    using lib [OF that] constFields_lib_32 [OF that, of flds] unfolding m by (rule conjI)
  show ?thesis
    by (rule conjI [OF c1 conjI [OF c2 conjI [OF c3 conjI [OF c4 impI [OF c5]]]]])
qed

theorem computeFields_constant_runs_witness:
  "map span (constFields (split_chars ''0000000----------000-----0110011''))
     = [(31, 25), (14, 12), (6, 0)]
   \<and> map f_label (constFields (split_chars ''0000000----------000-----0110011''))
     = [''funct7=0000000'', ''funct3=000'', ''opcode=0110011'']
   \<and> map f_label (filter (\<lambda>f. f_kind f = ''const'') (computeFields doc_add))
     = [''funct7=0000000'', ''funct3=000'', ''opcode=0110011'']
   \<and> map f_label (constFields (split_chars match_slli))
     = [''const=000000'', ''funct3=001'', ''opcode=0010011'']
   \<and> maximalRun (split_chars ''0000000----------000-----0110011'') 14 12"
proof -
  let ?s = "''0000000----------000-----0110011''"
  let ?enc = "\<lparr>e_match = Some ?s,
      e_variables = Some [\<lparr>v_name = ''xs2'', v_location = Str ''24-20''\<rparr>,
                          \<lparr>v_name = ''xs1'', v_location = Str ''19-15''\<rparr>,
                          \<lparr>v_name = ''xd'', v_location = Str ''11-7''\<rparr>],
      e_keys = [''match'', ''variables''], e_sub = []\<rparr>"
  have 1: "d_encoding doc_add = Some ?enc"
    by (simp add: doc_add_def)
  have 2: "se_match (chooseEncoding ?enc) = Some ?s"
    by (simp add: chooseEncoding_def truthy_def)
  have 3: "parseMatchBits ?s = Some (split_chars ?s)"
    by (simp add: parseMatchBits_def)
  have a: "map span (constFields (split_chars ?s)) = [(31, 25), (14, 12), (6, 0)]"
    by code_simp
  have b: "map f_label (constFields (split_chars ?s))
     = [''funct7=0000000'', ''funct3=000'', ''opcode=0110011'']"
    by code_simp
  have c: "map f_label (filter (\<lambda>f. f_kind f = ''const'') (computeFields doc_add))
     = [''funct7=0000000'', ''funct3=000'', ''opcode=0110011'']"
    by code_simp
  have d: "map f_label (constFields (split_chars match_slli))
     = [''const=000000'', ''funct3=001'', ''opcode=0010011'']"
    by code_simp
  have "(14, 12) \<in> set (map span (constFields (split_chars ?s)))"
    unfolding a by simp
  with computeFields_constant_runs [OF 1 2 3, of "[]"]
  have "maximalRun (split_chars ?s) 14 12"
    by blast
  with a b c d show ?thesis by simp
qed

subsection \<open>FieldResolver: one field per variable\<close>

text \<open>
  Claim C8: the loop over the variables handles each variable on its own; a variable
  whose location parses to no range produces no field; any other variable produces exactly
  one field of kind \<^verbatim>\<open>var\<close>, labelled with its name, whose \<open>from\<close> is the maximum
  \<open>from\<close> and whose \<open>to\<close> is the minimum \<open>to\<close> of the parsed ranges, whose width is the
  sum of the widths \<open>from - to + 1\<close> of the ranges, and which carries all the parsed ranges.
  The fields of kind \<^verbatim>\<open>var\<close> in the result of \<^verbatim>\<open>computeFields\<close> are those that the loop
  pushes for the variables of the resolved encoding.
\<close>

theorem computeFields_variable_field:
  "varLoop vars flds = flds @ concat (map (\<lambda>v. varLoop [v] []) vars)
   \<and> (parseLocationSegments (v_location v) = [] \<longrightarrow> varLoop [v] [] = [])
   \<and> (parseLocationSegments (v_location v) \<noteq> [] \<longrightarrow>
        varLoop [v] [] =
          [\<lparr>f_label = v_name v,
            f_from = Max (seg_from ` set (parseLocationSegments (v_location v))),
            f_to = Min (seg_to ` set (parseLocationSegments (v_location v))),
            f_width = (\<Sum>s\<leftarrow>parseLocationSegments (v_location v). seg_from s - seg_to s + 1),
            f_kind = ''var'',
            f_segments = Some (parseLocationSegments (v_location v))\<rparr>])
   \<and> (d_encoding doc = Some enc \<longrightarrow> se_variables (chooseEncoding enc) = Some vars \<longrightarrow>
        filter_mset (\<lambda>f. f_kind f = ''var'') (mset (computeFields doc)) = mset (varLoop vars []))"
  using varLoop_concat [of vars flds] varLoop_single [of v] computeFields_var_mset [of doc enc]
  by (simp add: Let_def)

lemma parse_imm:
  "parseLocationSegments (Str ''31-25|11-7'')
     = [\<lparr>seg_from = 31, seg_to = 25\<rparr>, \<lparr>seg_from = 11, seg_to = 7\<rparr>]"
  by (simp add: eval_parse)

lemma parse_bad: "parseLocationSegments (Str ''x-y'') = []"
  by (simp add: eval_parse)

theorem computeFields_variable_field_witness:
  "varLoop [var_bad, var_imm] []
     = [\<lparr>f_label = ''imm'', f_from = 31, f_to = 7, f_width = 12, f_kind = ''var'',
         f_segments = Some [\<lparr>seg_from = 31, seg_to = 25\<rparr>, \<lparr>seg_from = 11, seg_to = 7\<rparr>]\<rparr>]
   \<and> varLoop [var_bad] [] = []
   \<and> (12 :: int) \<noteq> 31 - 7 + 1"
  using computeFields_variable_field [of "[var_bad, var_imm]" "[]" var_imm]
    computeFields_variable_field [of "[var_bad]" "[]" var_bad]
  by (simp add: var_imm_def var_bad_def parse_imm parse_bad)

end
